theory Spec2Isabelle
  imports Main "HOL-Library.Word"
begin

section \<open>Errors and promises\<close>

text \<open>
  The worker is one TypeScript file, \<^verbatim>\<open>src/index.ts\<close>. Every failure in it is a
  rejected promise: either the program throws (\<^verbatim>\<open>throw Error(...)\<close> in
  \<^verbatim>\<open>getChallenges\<close>), or a collaborator hands an error to a callback or rejects.
\<close>

datatype error =
    Error string
  | DnsError string
  | RpcError string
  | AcmeError string

datatype 'a promise = Pending | Resolved 'a | Rejected error

section \<open>The DNS propagation watcher\<close>

text \<open>
  \<^verbatim>\<open>waitUntilVerify(record)\<close> (index.ts, lines 96 to 125) creates a promise whose executor
  arms \<^verbatim>\<open>setInterval(..., 5 * 1000, record.key, record.value)\<close>. Everything else happens
  in callbacks that the Node event loop runs later: the interval callback issues
  \<^verbatim>\<open>dns.resolveCname(k, ...)\<close>; its callback issues one \<^verbatim>\<open>dns.resolveTxt(addr, ...)\<close> per
  address; the TXT callback, when the flattened record sets contain \<^verbatim>\<open>v\<close>, arms
  \<^verbatim>\<open>setTimeout(() => resolve(), 15 * 1000)\<close> and clears the interval.

  The model is the closure state of one call together with the part of the event loop
  that belongs to it: a clock in milliseconds since the call, the interval timer, the
  queue of pending 15 second timeouts, and the DNS queries that have been issued and not
  yet answered. The \<^verbatim>\<open>console.log\<close> lines are not modelled.
\<close>

record dns_record =
  rec_key :: string
  rec_value :: string

datatype dns_query = ResolveCname string | ResolveTxt string

datatype dns_reply =
    CnameReply "error + string list"
  | TxtReply string "error + string list list"

datatype watch_event = Query dns_query | Signal

record watcher =
  w_k :: string
  w_v :: string
  clock :: nat
  intervalId :: "nat option"
  timeouts :: "nat list"
  promise :: "unit promise"
  cname_inflight :: nat
  txt_inflight :: "string list"
  wlog :: "(nat \<times> watch_event) list"

text \<open>
  \<open>intervalId = Some d\<close>: the interval is armed and next due at \<open>d\<close>; \<open>None\<close>: it has been
  cleared. \<open>timeouts\<close> holds the due times of the pending \<^verbatim>\<open>setTimeout\<close> calls in the order
  they were made (all have the same duration, so Node keeps them in one first-in first-out
  list). \<open>wlog\<close> records, with the time, each DNS query issued and each call of
  \<^verbatim>\<open>resolve()\<close>.
\<close>

definition waitUntilVerify :: "dns_record \<Rightarrow> watcher" where
  "waitUntilVerify record =
     \<lparr> w_k = rec_key record, w_v = rec_value record, clock = 0,
       intervalId = Some (5 * 1000), timeouts = [], promise = Pending,
       cname_inflight = 0, txt_inflight = [], wlog = [] \<rparr>"

text \<open>Line 99: the interval callback \<^verbatim>\<open>(k, v) => { dns.resolveCname(k, ...) }\<close>.\<close>

definition interval_callback :: "watcher \<Rightarrow> watcher" where
  "interval_callback w =
     w\<lparr> wlog := wlog w @ [(clock w, Query (ResolveCname (w_k w)))],
        cname_inflight := Suc (cname_inflight w) \<rparr>"

text \<open>Lines 105 to 121, one round of \<^verbatim>\<open>addresses.forEach\<close>: issue the TXT query.\<close>

definition resolveTxt_call :: "watcher \<Rightarrow> string \<Rightarrow> watcher" where
  "resolveTxt_call w addr =
     w\<lparr> wlog := wlog w @ [(clock w, Query (ResolveTxt addr))],
        txt_inflight := txt_inflight w @ [addr] \<rparr>"

text \<open>Lines 100 to 122: the callback \<^verbatim>\<open>(e, addresses)\<close> of \<^verbatim>\<open>dns.resolveCname\<close>.\<close>

definition cname_callback :: "error + string list \<Rightarrow> watcher \<Rightarrow> watcher" where
  "cname_callback res w =
     (case res of
        Inl e \<Rightarrow> w
      | Inr addresses \<Rightarrow> foldl resolveTxt_call w addresses)"

text \<open>Lines 108 to 120: the callback \<^verbatim>\<open>(innerE, result)\<close> of \<^verbatim>\<open>dns.resolveTxt\<close>.\<close>

definition txt_callback :: "error + string list list \<Rightarrow> watcher \<Rightarrow> watcher" where
  "txt_callback res w =
     (case res of
        Inl innerE \<Rightarrow> w
      | Inr result \<Rightarrow>
          (let records = concat result
           in if w_v w \<in> set records
              then w\<lparr> timeouts := timeouts w @ [clock w + 15 * 1000], intervalId := None \<rparr>
              else w))"

text \<open>Line 117: the timeout callback \<^verbatim>\<open>() => resolve()\<close>. Resolving a settled promise
  does nothing.\<close>

definition timeout_callback :: "watcher \<Rightarrow> watcher" where
  "timeout_callback w =
     w\<lparr> wlog := wlog w @ [(clock w, Signal)],
        promise := (case promise w of Pending \<Rightarrow> Resolved () | p \<Rightarrow> p) \<rparr>"

subsection \<open>Timers\<close>

datatype timer = IntervalTimer | TimeoutTimer

definition next_timer :: "watcher \<Rightarrow> (nat \<times> timer) option" where
  "next_timer w =
     (case (intervalId w, timeouts w) of
        (None, []) \<Rightarrow> None
      | (Some d, []) \<Rightarrow> Some (d, IntervalTimer)
      | (None, x # xs) \<Rightarrow> Some (x, TimeoutTimer)
      | (Some d, x # xs) \<Rightarrow> if d \<le> x then Some (d, IntervalTimer) else Some (x, TimeoutTimer))"

definition fire :: "timer \<Rightarrow> nat \<Rightarrow> watcher \<Rightarrow> watcher" where
  "fire tm d w =
     (case tm of
        IntervalTimer \<Rightarrow>
          interval_callback (w\<lparr> clock := max (clock w) d, intervalId := Some (d + 5 * 1000) \<rparr>)
      | TimeoutTimer \<Rightarrow>
          timeout_callback (w\<lparr> clock := max (clock w) d, timeouts := tl (timeouts w) \<rparr>))"

text \<open>The event loop up to time \<open>t\<close>: run every timer that is due, earliest first.\<close>

function advance :: "nat \<Rightarrow> watcher \<Rightarrow> watcher" where
  "advance t w =
     (case next_timer w of
        None \<Rightarrow> w\<lparr> clock := max (clock w) t \<rparr>
      | Some (d, tm) \<Rightarrow>
          if d \<le> t then advance t (fire tm d w) else w\<lparr> clock := max (clock w) t \<rparr>)"
  by pat_completeness auto
termination
  by (relation "measure (\<lambda>(t, w). length (timeouts w) +
        (case intervalId w of None \<Rightarrow> 0 | Some d \<Rightarrow> Suc t - d))")
     (auto simp: next_timer_def fire_def interval_callback_def timeout_callback_def
           split: option.splits list.splits if_splits)

text \<open>
  An event of the environment: at time \<open>t\<close> either nothing but the passing of time, or the
  answer to an outstanding DNS query. Node calls a DNS callback once, and only for a query
  that was made, so an answer that matches no outstanding query is dropped.
\<close>

type_synonym dns_event = "nat \<times> dns_reply option"

definition deliver :: "dns_event \<Rightarrow> watcher \<Rightarrow> watcher" where
  "deliver ev w =
     (let w' = advance (fst ev) w
      in case snd ev of
           None \<Rightarrow> w'
         | Some (CnameReply res) \<Rightarrow>
             if cname_inflight w' = 0 then w'
             else cname_callback res (w'\<lparr> cname_inflight := cname_inflight w' - 1 \<rparr>)
         | Some (TxtReply addr res) \<Rightarrow>
             if addr \<in> set (txt_inflight w')
             then txt_callback res (w'\<lparr> txt_inflight := remove1 addr (txt_inflight w') \<rparr>)
             else w')"

definition run :: "dns_event list \<Rightarrow> watcher \<Rightarrow> watcher" where
  "run evs w = fold deliver evs w"

section \<open>The collaborators\<close>

text \<open>
  The ACME client (\<^verbatim>\<open>acme-client\<close>), the gRPC stub of the coordinator service and the
  environment variable \<^verbatim>\<open>WORKER_UUID\<close> are outside the repository. The model reads only
  the fields of their objects that index.ts reads. A string stands for the UTF-8 bytes of
  the JavaScript string; a \<^verbatim>\<open>Buffer\<close> is a list of bytes.
\<close>

type_synonym bytes = "8 word list"

record acme_identifier =
  id_type :: string
  id_value :: string

record challenge =
  ch_type :: string
  ch_url :: string
  ch_token :: string

record authorization =
  auth_identifier :: acme_identifier
  auth_challenges :: "challenge list"

datatype order = Order string

text \<open>The object \<^verbatim>\<open>{ auth, challenge }\<close> built by \<^verbatim>\<open>getChallenges\<close>.\<close>

record selected =
  sel_auth :: authorization
  sel_challenge :: challenge

text \<open>The argument of the \<^verbatim>\<open>verifiedCallback\<close> RPC (lines 143 to 148).\<close>

record callback_request =
  cb_uuid :: "string option"
  cb_csr :: string
  cb_privKey :: string
  cb_certificate :: string

text \<open>
  What each collaborator answers. \<open>Inl e\<close> is a rejection, or an error handed to the
  callback; \<open>Inr x\<close> is the value.
\<close>

record collaborators =
  acme_createPrivateKey :: "error + bytes"
  rpc_registerClient :: "string option \<Rightarrow> error + string"
  acme_createAccount :: "string list \<Rightarrow> error + unit"
  rpc_fetchDomains :: "string option \<Rightarrow> error + string list"
  acme_createOrder :: "acme_identifier list \<Rightarrow> error + order"
  acme_getAuthorizations :: "order \<Rightarrow> error + authorization list"
  acme_getChallengeKeyAuthorization :: "challenge \<Rightarrow> error + string"
  rpc_registerChallenges :: "string option \<Rightarrow> string list \<Rightarrow> error + unit"
  acme_verifyChallenge :: "authorization \<Rightarrow> challenge \<Rightarrow> error + unit"
  acme_completeChallenge :: "challenge \<Rightarrow> error + unit"
  acme_waitForValidStatus :: "challenge \<Rightarrow> error + unit"
  acme_createCsr :: "string option \<Rightarrow> string list \<Rightarrow> error + (bytes \<times> bytes)"
  acme_finalizeOrder :: "order \<Rightarrow> bytes \<Rightarrow> error + unit"
  acme_getCertificate :: "order \<Rightarrow> error + string"
  rpc_verifiedCallback :: "callback_request \<Rightarrow> error + unit"

text \<open>
  The calls the worker makes, in a trace. \<open>Watch i t x\<close> is the entry \<open>(t, x)\<close> of the log
  of the watcher of record number \<open>i\<close>.
\<close>

datatype action =
    CreatePrivateKey
  | RegisterClient "string option"
  | CreateAccount "string list"
  | FetchDomains "string option"
  | CreateOrder "acme_identifier list"
  | GetAuthorizations order
  | GetChallengeKeyAuthorization challenge
  | RegisterChallenges "string option" "string list"
  | Watch nat nat watch_event
  | VerifyChallenge authorization challenge
  | CompleteChallenge challenge
  | WaitForValidStatus challenge
  | CreateCsr "string option" "string list"
  | FinalizeOrder order bytes
  | GetCertificate order
  | VerifiedCallback callback_request

section \<open>Asynchronous functions\<close>

text \<open>
  An \<^verbatim>\<open>async\<close> function is modelled by the calls it makes and the state of the promise it
  returns. \<open>await m f\<close> is \<^verbatim>\<open>const x = await m; f(x)\<close>: the rest runs only when \<open>m\<close> is
  fulfilled, a rejection of \<open>m\<close> rejects the whole function, and while \<open>m\<close> is pending
  nothing further happens.
\<close>

type_synonym 'a task = "action list \<times> 'a promise"

definition call :: "action \<Rightarrow> error + 'a \<Rightarrow> 'a task" where
  "call a res = ([a], case res of Inl e \<Rightarrow> Rejected e | Inr x \<Rightarrow> Resolved x)"

definition await :: "'a task \<Rightarrow> ('a \<Rightarrow> 'b task) \<Rightarrow> 'b task" where
  "await m f =
     (case snd m of
        Resolved x \<Rightarrow> (fst m @ fst (f x), snd (f x))
      | Rejected e \<Rightarrow> (fst m, Rejected e)
      | Pending \<Rightarrow> (fst m, Pending))"

text \<open>
  \<^verbatim>\<open>Promise.all\<close>: rejected as soon as one member is rejected, fulfilled with the values in
  the order of the members once all are fulfilled, pending otherwise. When several members
  are rejected the model reports the first in the order of the list.
\<close>

fun promise_all :: "'a promise list \<Rightarrow> 'a list promise" where
  "promise_all [] = Resolved []"
| "promise_all (p # ps) =
     (case p of
        Rejected e \<Rightarrow> Rejected e
      | Resolved x \<Rightarrow>
          (case promise_all ps of
             Resolved xs \<Rightarrow> Resolved (x # xs)
           | Rejected e \<Rightarrow> Rejected e
           | Pending \<Rightarrow> Pending)
      | Pending \<Rightarrow>
          (case promise_all ps of
             Rejected e \<Rightarrow> Rejected e
           | Resolved xs \<Rightarrow> Pending
           | Pending \<Rightarrow> Pending))"

text \<open>
  \<^verbatim>\<open>Promise.all(xs.map(async (x) => ...))\<close>: every task is started; the trace lists the
  calls task by task (how the calls of different tasks interleave in time is not
  represented).
\<close>

definition all_tasks :: "'a task list \<Rightarrow> 'a list task" where
  "all_tasks ts = (concat (map fst ts), promise_all (map snd ts))"

text \<open>\<^verbatim>\<open>xs.map(f)\<close> with a callback that may throw: the first throw ends the map.\<close>

fun map_throwing :: "('a \<Rightarrow> error + 'b) \<Rightarrow> 'a list \<Rightarrow> error + 'b list" where
  "map_throwing f [] = Inr []"
| "map_throwing f (x # xs) =
     (case f x of
        Inl e \<Rightarrow> Inl e
      | Inr y \<Rightarrow> (case map_throwing f xs of Inl e \<Rightarrow> Inl e | Inr ys \<Rightarrow> Inr (y # ys)))"

section \<open>The workflow\<close>

text \<open>Lines 29 to 45. The result is the \<^verbatim>\<open>email\<close> field of the answer.\<close>

definition initialize :: "collaborators \<Rightarrow> string option \<Rightarrow> string task" where
  "initialize env workerUuid =
     await (call CreatePrivateKey (acme_createPrivateKey env)) (\<lambda>privKey.
       call (RegisterClient workerUuid) (rpc_registerClient env workerUuid))"

text \<open>Lines 47 to 52.\<close>

definition createAccount :: "collaborators \<Rightarrow> string \<Rightarrow> unit task" where
  "createAccount env email =
     call (CreateAccount [''mailto:'' @ email]) (acme_createAccount env [''mailto:'' @ email])"

text \<open>Lines 54 to 64.\<close>

definition fetchDomains :: "collaborators \<Rightarrow> string option \<Rightarrow> string list task" where
  "fetchDomains env workerUuid = call (FetchDomains workerUuid) (rpc_fetchDomains env workerUuid)"

text \<open>Lines 73 to 83: the callback of \<^verbatim>\<open>authorizations.map\<close>.\<close>

definition select_dns01 :: "authorization \<Rightarrow> error + selected" where
  "select_dns01 a =
     (let filters = filter (\<lambda>c. ch_type c = ''dns-01'') (auth_challenges a)
      in if length filters = 0
         then Inl (Error ''Unabled to find dns-01 challenge.'')
         else Inr \<lparr> sel_auth = a, sel_challenge = filters ! 0 \<rparr>)"

text \<open>Lines 66 to 86.\<close>

definition getChallenges :: "collaborators \<Rightarrow> string list \<Rightarrow> (order \<times> selected list) task" where
  "getChallenges env domains =
     (let identifiers = map (\<lambda>d. \<lparr> id_type = ''dns'', id_value = d \<rparr>) domains
      in await (call (CreateOrder identifiers) (acme_createOrder env identifiers)) (\<lambda>order.
         await (call (GetAuthorizations order) (acme_getAuthorizations env order))
           (\<lambda>authorizations.
              case map_throwing select_dns01 authorizations of
                Inl e \<Rightarrow> ([], Rejected e)
              | Inr challenges \<Rightarrow> ([], Resolved (order, challenges)))))"

text \<open>Lines 160 to 165 of \<^verbatim>\<open>startWorker\<close>: the callback of \<^verbatim>\<open>challenges.map\<close>.\<close>

definition expected_record :: "collaborators \<Rightarrow> selected \<Rightarrow> dns_record task" where
  "expected_record env c =
     await (call (GetChallengeKeyAuthorization (sel_challenge c))
              (acme_getChallengeKeyAuthorization env (sel_challenge c)))
       (\<lambda>keyAuthorization.
          ([], Resolved \<lparr> rec_key = ''_acme-challenge.'' @ id_value (auth_identifier (sel_auth c)),
                         rec_value = keyAuthorization \<rparr>))"

text \<open>Lines 88 to 94.\<close>

definition pushRecords :: "collaborators \<Rightarrow> string option \<Rightarrow> dns_record list \<Rightarrow> unit task" where
  "pushRecords env workerUuid records =
     call (RegisterChallenges workerUuid (map rec_value records))
       (rpc_registerChallenges env workerUuid (map rec_value records))"

subsection \<open>Waiting for all watchers\<close>

text \<open>
  Line 170: \<^verbatim>\<open>await Promise.all(records.map(async (r) => waitUntilVerify(r)))\<close>. All
  watchers start at the same moment and share nothing. An event of the environment at
  time \<open>t\<close> is either the passing of time or a DNS answer for the watcher of one record.
  The \<^verbatim>\<open>await\<close> continues as soon as the promise of \<^verbatim>\<open>Promise.all\<close> is settled; if the
  events run out before that, it is still pending.
\<close>

type_synonym loop_event = "nat \<times> (nat \<times> dns_reply) option"

definition event_for :: "nat \<Rightarrow> loop_event \<Rightarrow> dns_event" where
  "event_for j ev =
     (fst ev, case snd ev of None \<Rightarrow> None | Some (i, r) \<Rightarrow> if i = j then Some r else None)"

definition deliver_all :: "loop_event \<Rightarrow> watcher list \<Rightarrow> watcher list" where
  "deliver_all ev ws = map (\<lambda>(j, w). deliver (event_for j ev) w) (enumerate 0 ws)"

fun await_watchers :: "watcher list \<Rightarrow> loop_event list \<Rightarrow> watcher list" where
  "await_watchers ws [] = ws"
| "await_watchers ws (ev # evs) =
     (if promise_all (map promise ws) = Pending
      then await_watchers (deliver_all ev ws) evs
      else ws)"

definition watch_log :: "watcher list \<Rightarrow> action list" where
  "watch_log ws =
     concat (map (\<lambda>(i, w). map (\<lambda>(t, x). Watch i t x) (wlog w)) (enumerate 0 ws))"

definition awaitAllVerified :: "dns_record list \<Rightarrow> loop_event list \<Rightarrow> unit list task" where
  "awaitAllVerified records evs =
     (let ws = await_watchers (map waitUntilVerify records) evs
      in (watch_log ws, promise_all (map promise ws)))"

subsection \<open>Finalizing and issuing\<close>

text \<open>Lines 127 to 131.\<close>

definition finalize :: "collaborators \<Rightarrow> selected \<Rightarrow> unit task" where
  "finalize env challenge =
     await (call (VerifyChallenge (sel_auth challenge) (sel_challenge challenge))
              (acme_verifyChallenge env (sel_auth challenge) (sel_challenge challenge))) (\<lambda>_.
     await (call (CompleteChallenge (sel_challenge challenge))
              (acme_completeChallenge env (sel_challenge challenge))) (\<lambda>_.
     call (WaitForValidStatus (sel_challenge challenge))
       (acme_waitForValidStatus env (sel_challenge challenge))))"

text \<open>
  \<^verbatim>\<open>buf.toString("base64")\<close>: the standard alphabet with padding, three bytes to four
  characters.
\<close>

definition b64_char :: "nat \<Rightarrow> char" where
  "b64_char n = ''ABCDEFGHIJKLMNOPQRSTUVWXYZabcdefghijklmnopqrstuvwxyz0123456789+/'' ! n"

fun base64 :: "bytes \<Rightarrow> string" where
  "base64 [] = []"
| "base64 [a] =
     (let x = unat a
      in [b64_char (x div 4), b64_char ((x mod 4) * 16), CHR ''='', CHR ''=''])"
| "base64 [a, b] =
     (let x = unat a; y = unat b
      in [b64_char (x div 4), b64_char ((x mod 4) * 16 + y div 16),
          b64_char ((y mod 16) * 4), CHR ''=''])"
| "base64 (a # b # c # rest) =
     (let x = unat a; y = unat b; z = unat c
      in [b64_char (x div 4), b64_char ((x mod 4) * 16 + y div 16),
          b64_char ((y mod 16) * 4 + z div 64), b64_char (z mod 64)] @ base64 rest)"

text \<open>\<^verbatim>\<open>Buffer.from(cert)\<close>: the UTF-8 bytes of the string.\<close>

definition Buffer_from :: "string \<Rightarrow> bytes" where
  "Buffer_from s = map (\<lambda>c. of_nat (of_char c)) s"

text \<open>
  Lines 133 to 152. \<^verbatim>\<open>domains[0]\<close> of an empty array is \<^verbatim>\<open>undefined\<close> (\<open>None\<close>), and
  \<^verbatim>\<open>domains.slice(1)\<close> of an empty array is empty.
\<close>

definition issue :: "collaborators \<Rightarrow> string option \<Rightarrow> string list \<Rightarrow> order \<Rightarrow> unit task" where
  "issue env workerUuid domains order =
     (let commonName = (case domains of [] \<Rightarrow> None | d # ds \<Rightarrow> Some d);
          altNames = drop 1 domains
      in await (call (CreateCsr commonName altNames) (acme_createCsr env commonName altNames))
           (\<lambda>(key, csr).
         await (call (FinalizeOrder order csr) (acme_finalizeOrder env order csr)) (\<lambda>_.
         await (call (GetCertificate order) (acme_getCertificate env order)) (\<lambda>cert.
           (let request = \<lparr> cb_uuid = workerUuid,
                            cb_csr = base64 csr,
                            cb_privKey = base64 key,
                            cb_certificate = base64 (Buffer_from cert) \<rparr>
            in call (VerifiedCallback request) (rpc_verifiedCallback env request))))))"

text \<open>Lines 154 to 174.\<close>

definition startWorker :: "collaborators \<Rightarrow> string option \<Rightarrow> loop_event list \<Rightarrow> unit task" where
  "startWorker env workerUuid evs =
     await (initialize env workerUuid) (\<lambda>initResult.
     await (createAccount env initResult) (\<lambda>_.
     await (fetchDomains env workerUuid) (\<lambda>domains.
     await (getChallenges env domains) (\<lambda>(order, challenges).
     await (all_tasks (map (expected_record env) challenges)) (\<lambda>records.
     await (pushRecords env workerUuid records) (\<lambda>_.
     await (awaitAllVerified records evs) (\<lambda>_.
     await (all_tasks (map (finalize env) challenges)) (\<lambda>_.
     issue env workerUuid domains order))))))))"

section \<open>Invariants of the watcher\<close>

text \<open>
  \<open>watcher_ok\<close> holds whenever the event loop is idle: the pending timeouts are in the order
  they fire, every timer is due in the future and no further away than its duration, the
  promise is not rejected, and while the interval is armed no timeout exists. \<open>loop_ok\<close> is
  the same between two timers that are due at the same moment, and \<open>quiet t\<close> says that no
  timer is due at time \<open>t\<close> or before.
\<close>

definition watcher_ok :: "watcher \<Rightarrow> bool" where
  "watcher_ok w \<longleftrightarrow>
     sorted (timeouts w) \<and>
     (\<forall>d \<in> set (timeouts w). clock w < d \<and> d \<le> clock w + 15 * 1000) \<and>
     (promise w = Pending \<or> promise w = Resolved ()) \<and>
     (case intervalId w of
        None \<Rightarrow> True
      | Some d \<Rightarrow> clock w < d \<and> d \<le> clock w + 5 * 1000 \<and> 5 * 1000 dvd d \<and> timeouts w = [])"

definition loop_ok :: "watcher \<Rightarrow> bool" where
  "loop_ok w \<longleftrightarrow>
     sorted (timeouts w) \<and>
     (\<forall>d \<in> set (timeouts w). clock w \<le> d \<and> d \<le> clock w + 15 * 1000) \<and>
     (promise w = Pending \<or> promise w = Resolved ()) \<and>
     (case intervalId w of
        None \<Rightarrow> True
      | Some d \<Rightarrow> clock w < d \<and> d \<le> clock w + 5 * 1000 \<and> 5 * 1000 dvd d \<and> timeouts w = [])"

definition quiet :: "nat \<Rightarrow> watcher \<Rightarrow> bool" where
  "quiet t w \<longleftrightarrow> (case next_timer w of None \<Rightarrow> True | Some (d, tm) \<Rightarrow> t < d)"

section \<open>The workflow in two halves\<close>

text \<open>
  \<^verbatim>\<open>startWorker\<close> split at the call that publishes the records: \<open>prepare\<close> is everything
  before it, \<open>after_publish\<close> everything after it.
\<close>

definition prepare ::
  "collaborators \<Rightarrow> string option \<Rightarrow> (string list \<times> order \<times> selected list \<times> dns_record list) task" where
  "prepare env workerUuid =
     await (initialize env workerUuid) (\<lambda>initResult.
     await (createAccount env initResult) (\<lambda>_.
     await (fetchDomains env workerUuid) (\<lambda>domains.
     await (getChallenges env domains) (\<lambda>(order, challenges).
     await (all_tasks (map (expected_record env) challenges)) (\<lambda>records.
       ([], Resolved (domains, order, challenges, records)))))))"

definition after_publish ::
  "collaborators \<Rightarrow> string option \<Rightarrow> loop_event list \<Rightarrow>
   string list \<times> order \<times> selected list \<times> dns_record list \<Rightarrow> unit task" where
  "after_publish env workerUuid evs = (\<lambda>(domains, order, challenges, records).
     await (awaitAllVerified records evs) (\<lambda>_.
     await (all_tasks (map (finalize env) challenges)) (\<lambda>_.
     issue env workerUuid domains order)))"

section \<open>What a history of DNS answers shows\<close>

text \<open>
  These functions read a history of events without running the watcher. \<open>reply_targets\<close>
  are the addresses a successful CNAME answer returns. \<open>reply_shows v targets\<close> holds for a
  successful TXT answer, at an address among \<open>targets\<close>, whose flattened record sets contain
  \<open>v\<close>. \<open>observations v targets c evs\<close> lists the times at which the history \<open>evs\<close>,
  starting at time \<open>c\<close> with the CNAME targets \<open>targets\<close> known so far, shows \<open>v\<close> at a CNAME
  target.
\<close>

fun reply_targets :: "dns_reply option \<Rightarrow> string list" where
  "reply_targets (Some (CnameReply (Inr addresses))) = addresses"
| "reply_targets _ = []"

fun reply_shows :: "string \<Rightarrow> string list \<Rightarrow> dns_reply option \<Rightarrow> bool" where
  "reply_shows v targets (Some (TxtReply addr (Inr result))) =
     (addr \<in> set targets \<and> v \<in> set (concat result))"
| "reply_shows v targets _ = False"

fun observations :: "string \<Rightarrow> string list \<Rightarrow> nat \<Rightarrow> dns_event list \<Rightarrow> nat list" where
  "observations v targets c [] = []"
| "observations v targets c (ev # evs) =
     (let c' = max c (fst ev)
      in (if reply_shows v targets (snd ev) then [c'] else []) @
         observations v (targets @ reply_targets (snd ev)) c' evs)"

fun is_cname_query :: "watch_event \<Rightarrow> bool" where
  "is_cname_query (Query (ResolveCname name)) = True"
| "is_cname_query _ = False"

definition cname_queries :: "watcher \<Rightarrow> (nat \<times> watch_event) list" where
  "cname_queries w = filter (\<lambda>entry. is_cname_query (snd entry)) (wlog w)"

section \<open>Kinds of actions in a trace\<close>

text \<open>
  \<open>is_publish\<close>: a call of the \<^verbatim>\<open>registerChallenges\<close> RPC. \<open>is_finalize\<close>: one of the three
  calls of \<^verbatim>\<open>finalize\<close>. \<open>is_watch\<close>: an entry of a watcher's log, that is a DNS query or a
  call of \<^verbatim>\<open>resolve()\<close>.
\<close>

fun is_publish :: "action \<Rightarrow> bool" where
  "is_publish (RegisterChallenges workerUuid records) = True"
| "is_publish _ = False"

fun is_finalize :: "action \<Rightarrow> bool" where
  "is_finalize (VerifyChallenge a c) = True"
| "is_finalize (CompleteChallenge c) = True"
| "is_finalize (WaitForValidStatus c) = True"
| "is_finalize _ = False"

fun is_watch :: "action \<Rightarrow> bool" where
  "is_watch (Watch i t x) = True"
| "is_watch _ = False"

definition is_dns01 :: "challenge \<Rightarrow> bool" where
  "is_dns01 c \<longleftrightarrow> ch_type c = ''dns-01''"

fun is_issue :: "action \<Rightarrow> bool" where
  "is_issue (CreateCsr commonName altNames) = True"
| "is_issue (FinalizeOrder order csr) = True"
| "is_issue (GetCertificate order) = True"
| "is_issue (VerifiedCallback request) = True"
| "is_issue _ = False"

text \<open>A fulfilled watcher has logged its call of \<^verbatim>\<open>resolve()\<close>.\<close>

definition signalled :: "watcher \<Rightarrow> bool" where
  "signalled w \<longleftrightarrow> (promise w = Resolved () \<longrightarrow> Signal \<in> snd ` set (wlog w))"

section \<open>Example inputs\<close>

text \<open>Concrete inputs on which the theorems below are instantiated.\<close>

definition demo_record :: dns_record where
  "demo_record = \<lparr> rec_key = ''_acme-challenge.example.com'', rec_value = ''token'' \<rparr>"

definition demo_challenges :: "string \<Rightarrow> challenge list" where
  "demo_challenges name =
     [\<lparr> ch_type = ''http-01'', ch_url = ''https://ca.test/chall/'' @ name @ ''/1'', ch_token = ''h-'' @ name \<rparr>,
      \<lparr> ch_type = ''dns-01'', ch_url = ''https://ca.test/chall/'' @ name @ ''/2'', ch_token = ''d-'' @ name \<rparr>,
      \<lparr> ch_type = ''dns-01'', ch_url = ''https://ca.test/chall/'' @ name @ ''/3'', ch_token = ''e-'' @ name \<rparr>]"

definition demo_authorization :: "acme_identifier \<Rightarrow> authorization" where
  "demo_authorization ident =
     \<lparr> auth_identifier = ident, auth_challenges = demo_challenges (id_value ident) \<rparr>"

definition demo_domains :: "string list" where
  "demo_domains = [''example.com'', ''www.example.com'']"

definition demo_env :: collaborators where
  "demo_env =
     \<lparr> acme_createPrivateKey = Inr [1, 2, 3],
       rpc_registerClient = (\<lambda>workerUuid. Inr ''ops@example.com''),
       acme_createAccount = (\<lambda>contact. Inr ()),
       rpc_fetchDomains = (\<lambda>workerUuid. Inr demo_domains),
       acme_createOrder = (\<lambda>identifiers. Inr (Order ''https://ca.test/order/1'')),
       acme_getAuthorizations = (\<lambda>order. Inr (map (\<lambda>d. demo_authorization \<lparr> id_type = ''dns'', id_value = d \<rparr>) demo_domains)),
       acme_getChallengeKeyAuthorization = (\<lambda>c. Inr (''ka-'' @ ch_token c)),
       rpc_registerChallenges = (\<lambda>workerUuid records. Inr ()),
       acme_verifyChallenge = (\<lambda>a c. Inr ()),
       acme_completeChallenge = (\<lambda>c. Inr ()),
       acme_waitForValidStatus = (\<lambda>c. Inr ()),
       acme_createCsr = (\<lambda>commonName altNames. Inr ([0x4B, 0x65, 0x79, 0x21], [0x43, 0x53, 0x52])),
       acme_finalizeOrder = (\<lambda>order csr. Inr ()),
       acme_getCertificate = (\<lambda>order. Inr ''CERTIFICATE''),
       rpc_verifiedCallback = (\<lambda>request. Inr ()) \<rparr>"



definition demo_env_publish_fails :: collaborators where
  "demo_env_publish_fails =
     demo_env\<lparr> rpc_registerChallenges := (\<lambda>workerUuid records. Inl (RpcError ''UNAVAILABLE'')) \<rparr>"

definition demo_selected :: "selected list" where
  "demo_selected =
     map (\<lambda>d. \<lparr> sel_auth = demo_authorization \<lparr> id_type = ''dns'', id_value = d \<rparr>,
                 sel_challenge = demo_challenges d ! 1 \<rparr>) demo_domains"

definition demo_records :: "dns_record list" where
  "demo_records =
     [\<lparr> rec_key = ''_acme-challenge.example.com'', rec_value = ''ka-d-example.com'' \<rparr>,
      \<lparr> rec_key = ''_acme-challenge.www.example.com'', rec_value = ''ka-d-www.example.com'' \<rparr>]"

definition demo_events :: "loop_event list" where
  "demo_events =
     [(5040, Some (0, CnameReply (Inr [''v.example.net'']))),
      (5050, Some (1, CnameReply (Inr [''w.example.net'']))),
      (5090, Some (0, TxtReply ''v.example.net'' (Inr [[''ka-d-example.com'']]))),
      (25000, Some (1, TxtReply ''w.example.net'' (Inr [[''unrelated''], [''ka-d-www.example.com'']]))),
      (40000, None)]"

definition demo_env_empty :: collaborators where
  "demo_env_empty =
     demo_env\<lparr> rpc_fetchDomains := (\<lambda>workerUuid. Inr []),
               acme_getAuthorizations := (\<lambda>order. Inr []) \<rparr>"

section \<open>The event loop of one watcher\<close>

declare advance.simps [simp del]

lemma advance_idle: "next_timer w = None \<Longrightarrow> advance t w = w\<lparr> clock := max (clock w) t \<rparr>"
  by (subst advance.simps) simp

lemma advance_wait:
  "next_timer w = Some (d, tm) \<Longrightarrow> t < d \<Longrightarrow> advance t w = w\<lparr> clock := max (clock w) t \<rparr>"
  by (subst advance.simps) simp

lemma advance_fire:
  "next_timer w = Some (d, tm) \<Longrightarrow> d \<le> t \<Longrightarrow> advance t w = advance t (fire tm d w)"
  by (subst advance.simps) simp

lemma advance_rule:
  assumes "P w"
    and "\<And>w d tm. P w \<Longrightarrow> next_timer w = Some (d, tm) \<Longrightarrow> d \<le> t \<Longrightarrow> P (fire tm d w)"
    and "\<And>w. P w \<Longrightarrow> quiet t w \<Longrightarrow> R (w\<lparr> clock := max (clock w) t \<rparr>)"
  shows "R (advance t w)"
  using assms
proof (induction t w rule: advance.induct)
  case (1 t w)
  note step = "1.prems"(2) and final = "1.prems"(3)
  show ?case
  proof (cases "next_timer w")
    case None
    then have "quiet t w" by (simp add: quiet_def)
    then have "R (w\<lparr> clock := max (clock w) t \<rparr>)" using final "1.prems"(1) by blast
    then show ?thesis unfolding advance_idle [OF None] .
  next
    case (Some p)
    obtain d tm where p: "p = (d, tm)" by (cases p)
    show ?thesis
    proof (cases "d \<le> t")
      case True
      have "P (fire tm d w)" using step "1.prems"(1) Some p True by simp
      then have "R (advance t (fire tm d w))"
        using "1.IH" [OF Some p [symmetric] True] step final by blast
      then show ?thesis using advance_fire [of w d tm t] Some p True by simp
    next
      case False
      then have lt: "t < d" by simp
      have "quiet t w" using Some p lt by (simp add: quiet_def)
      then have "R (w\<lparr> clock := max (clock w) t \<rparr>)" using final "1.prems"(1) by blast
      then show ?thesis using advance_wait [of w d tm t] Some p lt by simp
    qed
  qed
qed

lemma next_timer_interval:
  "next_timer w = Some (d, IntervalTimer) \<Longrightarrow> intervalId w = Some d"
  by (auto simp: next_timer_def split: option.splits list.splits if_splits)

lemma next_timer_timeout:
  "next_timer w = Some (d, TimeoutTimer) \<Longrightarrow> \<exists>xs. timeouts w = d # xs"
  by (auto simp: next_timer_def split: option.splits list.splits if_splits)

lemma next_timer_cases:
  assumes "next_timer w = Some (d, tm)"
  obtains (interval) "tm = IntervalTimer" "intervalId w = Some d"
  | (timeout) xs where "tm = TimeoutTimer" "timeouts w = d # xs"
  using assms next_timer_interval [of w d] next_timer_timeout [of w d] by (cases tm) blast+

lemma fire_interval_simps [simp]:
  "clock (fire IntervalTimer d w) = max (clock w) d"
  "intervalId (fire IntervalTimer d w) = Some (d + 5 * 1000)"
  "timeouts (fire IntervalTimer d w) = timeouts w"
  "promise (fire IntervalTimer d w) = promise w"
  "txt_inflight (fire IntervalTimer d w) = txt_inflight w"
  "cname_inflight (fire IntervalTimer d w) = Suc (cname_inflight w)"
  "w_k (fire IntervalTimer d w) = w_k w"
  "w_v (fire IntervalTimer d w) = w_v w"
  "wlog (fire IntervalTimer d w) = wlog w @ [(max (clock w) d, Query (ResolveCname (w_k w)))]"
  by (simp_all add: fire_def interval_callback_def)

lemma fire_timeout_simps [simp]:
  "clock (fire TimeoutTimer d w) = max (clock w) d"
  "intervalId (fire TimeoutTimer d w) = intervalId w"
  "timeouts (fire TimeoutTimer d w) = tl (timeouts w)"
  "promise (fire TimeoutTimer d w) = (case promise w of Pending \<Rightarrow> Resolved () | p \<Rightarrow> p)"
  "txt_inflight (fire TimeoutTimer d w) = txt_inflight w"
  "cname_inflight (fire TimeoutTimer d w) = cname_inflight w"
  "w_k (fire TimeoutTimer d w) = w_k w"
  "w_v (fire TimeoutTimer d w) = w_v w"
  "wlog (fire TimeoutTimer d w) = wlog w @ [(max (clock w) d, Signal)]"
  by (simp_all add: fire_def timeout_callback_def)

lemma advance_w_v [simp]: "w_v (advance t w) = w_v w"
  by (rule advance_rule [where P = "\<lambda>x. w_v x = w_v w"])
     (auto elim!: next_timer_cases)

lemma advance_w_k [simp]: "w_k (advance t w) = w_k w"
  by (rule advance_rule [where P = "\<lambda>x. w_k x = w_k w"])
     (auto elim!: next_timer_cases)

lemma advance_txt_inflight [simp]: "txt_inflight (advance t w) = txt_inflight w"
  by (rule advance_rule [where P = "\<lambda>x. txt_inflight x = txt_inflight w"])
     (auto elim!: next_timer_cases)

lemma advance_clock [simp]: "clock (advance t w) = max (clock w) t"
  by (rule advance_rule [where P = "\<lambda>x. clock w \<le> clock x \<and> clock x \<le> max (clock w) t"])
     (auto elim!: next_timer_cases)

lemma advance_interval_cleared: "intervalId w = None \<Longrightarrow> intervalId (advance t w) = None"
  by (rule advance_rule [where P = "\<lambda>x. intervalId x = None"])
     (auto elim!: next_timer_cases)

lemma advance_timeouts_subset: "set (timeouts (advance t w)) \<subseteq> set (timeouts w)"
  by (rule advance_rule [where P = "\<lambda>x. set (timeouts x) \<subseteq> set (timeouts w)"])
     (auto elim!: next_timer_cases dest: list.set_sel(2) [rotated])

lemma advance_resolved: "promise w = Resolved u \<Longrightarrow> promise (advance t w) = Resolved u"
  by (rule advance_rule [where P = "\<lambda>x. promise x = Resolved u"])
     (auto elim!: next_timer_cases)

lemma advance_not_rejected:
  "promise w = Pending \<or> promise w = Resolved () \<Longrightarrow>
   promise (advance t w) = Pending \<or> promise (advance t w) = Resolved ()"
  by (rule advance_rule [where P = "\<lambda>x. promise x = Pending \<or> promise x = Resolved ()"])
     (auto elim!: next_timer_cases)

lemma watcher_ok_loop_ok: "watcher_ok w \<Longrightarrow> loop_ok w"
  by (auto simp: watcher_ok_def loop_ok_def less_imp_le split: option.splits)

lemma loop_ok_fire:
  assumes "loop_ok w" and "next_timer w = Some (d, tm)"
  shows "loop_ok (fire tm d w)"
  using assms(2)
proof (cases rule: next_timer_cases)
  case interval
  then show ?thesis using assms(1) by (auto simp: loop_ok_def max_def)
next
  case (timeout xs)
  then show ?thesis using assms(1)
    by (auto simp: loop_ok_def max_def split: option.splits promise.splits)
qed

lemma quiet_timeouts:
  assumes "loop_ok w" and "quiet t w" and "d \<in> set (timeouts w)"
  shows "t < d"
proof -
  from assms(3) obtain x xs where xs: "timeouts w = x # xs" by (cases "timeouts w") auto
  with assms(1) have none: "intervalId w = None"
    by (auto simp: loop_ok_def split: option.splits)
  from xs none have "next_timer w = Some (x, TimeoutTimer)" by (simp add: next_timer_def)
  with assms(2) have "t < x" by (simp add: quiet_def)
  moreover from assms(1,3) xs have "x \<le> d" by (auto simp: loop_ok_def)
  ultimately show ?thesis by simp
qed

lemma quiet_interval:
  assumes "loop_ok w" and "quiet t w" and "intervalId w = Some d"
  shows "t < d"
proof -
  from assms(1,3) have "timeouts w = []" by (simp add: loop_ok_def)
  with assms(3) have "next_timer w = Some (d, IntervalTimer)" by (simp add: next_timer_def)
  with assms(2) show ?thesis by (simp add: quiet_def)
qed

lemma watcher_ok_advance:
  assumes "watcher_ok w"
  shows "watcher_ok (advance t w)"
proof (rule advance_rule [where P = "\<lambda>x. loop_ok x \<and> clock x \<le> max (clock w) t \<and> (\<forall>d \<in> set (timeouts x). clock w < d)"])
  show "loop_ok w \<and> clock w \<le> max (clock w) t \<and> (\<forall>d \<in> set (timeouts w). clock w < d)"
    using assms watcher_ok_loop_ok by (auto simp: watcher_ok_def)
next
  fix x d tm
  assume a: "loop_ok x \<and> clock x \<le> max (clock w) t \<and> (\<forall>d \<in> set (timeouts x). clock w < d)"
    and n: "next_timer x = Some (d, tm)" and "d \<le> t"
  have "loop_ok (fire tm d x)" using a n loop_ok_fire by blast
  moreover have "\<forall>d' \<in> set (timeouts (fire tm d x)). clock w < d'"
    using n a by (cases rule: next_timer_cases) auto
  moreover have "clock (fire tm d x) \<le> max (clock w) t"
    using n a \<open>d \<le> t\<close> by (cases rule: next_timer_cases) auto
  ultimately show "loop_ok (fire tm d x) \<and> clock (fire tm d x) \<le> max (clock w) t \<and>
      (\<forall>d \<in> set (timeouts (fire tm d x)). clock w < d)"
    by simp
next
  fix x
  assume a: "loop_ok x \<and> clock x \<le> max (clock w) t \<and> (\<forall>d \<in> set (timeouts x). clock w < d)" and q: "quiet t x"
  have 1: "\<forall>d \<in> set (timeouts x). t < d" using a q quiet_timeouts by blast
  have 2: "\<And>d. intervalId x = Some d \<Longrightarrow> t < d" using a q quiet_interval by blast
  have 3: "max (clock x) t < d" if "d \<in> set (timeouts x)" for d
  proof -
    have "t < d" "clock w < d" "clock x \<le> max (clock w) t" using that 1 a by auto
    then show ?thesis by (simp add: max_def split: if_splits)
  qed
  have 4: "d \<le> max (clock x) t + 15 * 1000" if "d \<in> set (timeouts x)" for d
    using that a by (fastforce simp: loop_ok_def max_def)
  have 5: "max (clock x) t < d \<and> d \<le> max (clock x) t + 5 * 1000 \<and> 5 * 1000 dvd d \<and> timeouts x = []"
    if "intervalId x = Some d" for d
    using that a 2 [OF that] by (auto simp: loop_ok_def max_def)
  show "watcher_ok (x\<lparr> clock := max (clock x) t \<rparr>)"
    using a 3 4 5 unfolding watcher_ok_def
    by (auto simp: loop_ok_def split: option.splits)
qed

lemma foldl_resolveTxt_call_simps [simp]:
  "clock (foldl resolveTxt_call w as) = clock w"
  "intervalId (foldl resolveTxt_call w as) = intervalId w"
  "timeouts (foldl resolveTxt_call w as) = timeouts w"
  "promise (foldl resolveTxt_call w as) = promise w"
  "cname_inflight (foldl resolveTxt_call w as) = cname_inflight w"
  "txt_inflight (foldl resolveTxt_call w as) = txt_inflight w @ as"
  "w_k (foldl resolveTxt_call w as) = w_k w"
  "w_v (foldl resolveTxt_call w as) = w_v w"
  "wlog (foldl resolveTxt_call w as) = wlog w @ map (\<lambda>a. (clock w, Query (ResolveTxt a))) as"
  by (induction as arbitrary: w; simp add: resolveTxt_call_def)+

lemma watcher_ok_cong:
  "watcher_ok w \<Longrightarrow> clock w' = clock w \<Longrightarrow> intervalId w' = intervalId w \<Longrightarrow>
   timeouts w' = timeouts w \<Longrightarrow> promise w' = promise w \<Longrightarrow> watcher_ok w'"
  by (simp add: watcher_ok_def split: option.splits)

lemma watcher_ok_cname_callback: "watcher_ok w \<Longrightarrow> watcher_ok (cname_callback res w)"
  by (cases res) (auto simp: cname_callback_def elim: watcher_ok_cong)

lemma watcher_ok_txt_callback: "watcher_ok w \<Longrightarrow> watcher_ok (txt_callback res w)"
  by (cases res)
     (auto simp: txt_callback_def watcher_ok_def Let_def sorted_append less_imp_le
           split: option.splits)

lemma watcher_ok_deliver: "watcher_ok w \<Longrightarrow> watcher_ok (deliver ev w)"
proof -
  assume "watcher_ok w"
  then have a: "watcher_ok (advance (fst ev) w)" by (rule watcher_ok_advance)
  show ?thesis
  proof (cases "snd ev")
    case None
    then show ?thesis using a by (simp add: deliver_def Let_def)
  next
    case (Some r)
    show ?thesis
    proof (cases r)
      case (CnameReply res)
      have "watcher_ok (advance (fst ev) w\<lparr> cname_inflight := cname_inflight (advance (fst ev) w) - 1 \<rparr>)"
        using a by (rule watcher_ok_cong) simp_all
      then show ?thesis using a Some CnameReply
        by (simp add: deliver_def Let_def watcher_ok_cname_callback)
    next
      case (TxtReply addr res)
      have "watcher_ok (advance (fst ev) w\<lparr> txt_inflight := remove1 addr (txt_inflight (advance (fst ev) w)) \<rparr>)"
        using a by (rule watcher_ok_cong) simp_all
      then show ?thesis using a Some TxtReply
        by (simp add: deliver_def Let_def watcher_ok_txt_callback)
    qed
  qed
qed

lemma watcher_ok_run: "watcher_ok w \<Longrightarrow> watcher_ok (run evs w)"
  unfolding run_def by (induction evs arbitrary: w) (simp_all add: watcher_ok_deliver)

lemma watcher_ok_initial: "watcher_ok (waitUntilVerify r)"
  by (simp add: watcher_ok_def waitUntilVerify_def)

section \<open>Callbacks, events and runs\<close>

lemma cname_callback_simps [simp]:
  "clock (cname_callback res w) = clock w"
  "intervalId (cname_callback res w) = intervalId w"
  "timeouts (cname_callback res w) = timeouts w"
  "promise (cname_callback res w) = promise w"
  "cname_inflight (cname_callback res w) = cname_inflight w"
  "w_k (cname_callback res w) = w_k w"
  "w_v (cname_callback res w) = w_v w"
  by (simp_all add: cname_callback_def split: sum.splits)

lemma cname_callback_txt_inflight [simp]:
  "txt_inflight (cname_callback res w) = txt_inflight w @ reply_targets (Some (CnameReply res))"
  by (cases res) (simp_all add: cname_callback_def)

lemma cname_callback_wlog [simp]:
  "wlog (cname_callback res w) =
     wlog w @ map (\<lambda>a. (clock w, Query (ResolveTxt a))) (reply_targets (Some (CnameReply res)))"
  by (cases res) (simp_all add: cname_callback_def)

lemma txt_callback_simps [simp]:
  "clock (txt_callback res w) = clock w"
  "promise (txt_callback res w) = promise w"
  "cname_inflight (txt_callback res w) = cname_inflight w"
  "txt_inflight (txt_callback res w) = txt_inflight w"
  "w_k (txt_callback res w) = w_k w"
  "w_v (txt_callback res w) = w_v w"
  "wlog (txt_callback res w) = wlog w"
  by (simp_all add: txt_callback_def Let_def split: sum.splits)

lemma txt_callback_error [simp]: "txt_callback (Inl e) w = w"
  by (simp add: txt_callback_def)

lemma cname_callback_error [simp]: "cname_callback (Inl e) w = w"
  by (simp add: cname_callback_def)

lemma txt_callback_found:
  "w_v w \<in> set (concat result) \<Longrightarrow>
   txt_callback (Inr result) w =
     w\<lparr> timeouts := timeouts w @ [clock w + 15 * 1000], intervalId := None \<rparr>"
  by (simp add: txt_callback_def)

lemma txt_callback_missing:
  "w_v w \<notin> set (concat result) \<Longrightarrow> txt_callback (Inr result) w = w"
  by (simp add: txt_callback_def)

lemma txt_callback_intervalId:
  "intervalId (txt_callback res w) = None \<or> intervalId (txt_callback res w) = intervalId w"
  by (cases res) (simp_all add: txt_callback_def Let_def)

lemma txt_callback_timeouts:
  "timeouts (txt_callback res w) = timeouts w \<or>
   (\<exists>result. res = Inr result \<and> w_v w \<in> set (concat result) \<and>
      timeouts (txt_callback res w) = timeouts w @ [clock w + 15 * 1000])"
  by (cases res) (simp_all add: txt_callback_def Let_def)

text \<open>What one event does, case by case.\<close>

lemma deliver_idle: "deliver (t, None) w = advance t w"
  by (simp add: deliver_def)

lemma deliver_cname:
  "deliver (t, Some (CnameReply res)) w =
     (if cname_inflight (advance t w) = 0 then advance t w
      else cname_callback res (advance t w\<lparr> cname_inflight := cname_inflight (advance t w) - 1 \<rparr>))"
  by (simp add: deliver_def Let_def)

lemma deliver_txt:
  "deliver (t, Some (TxtReply addr res)) w =
     (if addr \<in> set (txt_inflight w)
      then txt_callback res (advance t w\<lparr> txt_inflight := remove1 addr (txt_inflight w) \<rparr>)
      else advance t w)"
  by (simp add: deliver_def Let_def)

lemma deliver_cases:
  obtains (idle) "deliver ev w = advance (fst ev) w"
  | (cname_answer) res where "snd ev = Some (CnameReply res)"
      "deliver ev w =
         cname_callback res (advance (fst ev) w\<lparr> cname_inflight := cname_inflight (advance (fst ev) w) - 1 \<rparr>)"
  | (txt_answer) addr res where "snd ev = Some (TxtReply addr res)" "addr \<in> set (txt_inflight w)"
      "deliver ev w =
         txt_callback res (advance (fst ev) w\<lparr> txt_inflight := remove1 addr (txt_inflight w) \<rparr>)"
proof -
  obtain t ro where ev: "ev = (t, ro)" by (cases ev)
  show thesis
  proof (cases ro)
    case None
    have "deliver ev w = advance (fst ev) w"
      unfolding ev None by (simp add: deliver_idle)
    then show thesis by (rule idle)
  next
    case (Some r)
    show thesis
    proof (cases r)
      case (CnameReply res)
      show thesis
      proof (cases "cname_inflight (advance t w) = 0")
        case True
        have "deliver ev w = advance (fst ev) w"
          unfolding ev Some CnameReply using True by (simp add: deliver_cname)
        then show thesis by (rule idle)
      next
        case False
        have "snd ev = Some (CnameReply res)"
          by (simp add: ev Some CnameReply)
        moreover have "deliver ev w =
            cname_callback res
              (advance (fst ev) w\<lparr> cname_inflight := cname_inflight (advance (fst ev) w) - 1 \<rparr>)"
          unfolding ev Some CnameReply using False by (simp add: deliver_cname)
        ultimately show thesis by (rule cname_answer)
      qed
    next
      case (TxtReply addr res)
      show thesis
      proof (cases "addr \<in> set (txt_inflight w)")
        case False
        have "deliver ev w = advance (fst ev) w"
          unfolding ev Some TxtReply using False by (simp add: deliver_txt)
        then show thesis by (rule idle)
      next
        case True
        have "snd ev = Some (TxtReply addr res)"
          by (simp add: ev Some TxtReply)
        moreover note True
        moreover have "deliver ev w =
            txt_callback res (advance (fst ev) w\<lparr> txt_inflight := remove1 addr (txt_inflight w) \<rparr>)"
          unfolding ev Some TxtReply using True by (simp add: deliver_txt)
        ultimately show thesis by (rule txt_answer)
      qed
    qed
  qed
qed

lemma deliver_clock [simp]: "clock (deliver ev w) = max (clock w) (fst ev)"
  by (cases ev w rule: deliver_cases) simp_all

lemma deliver_w_v [simp]: "w_v (deliver ev w) = w_v w"
  by (cases ev w rule: deliver_cases) simp_all

lemma deliver_w_k [simp]: "w_k (deliver ev w) = w_k w"
  by (cases ev w rule: deliver_cases) simp_all

lemma run_Nil [simp]: "run [] w = w"
  by (simp add: run_def)

lemma run_Cons [simp]: "run (ev # evs) w = run evs (deliver ev w)"
  by (simp add: run_def)

lemma run_append: "run (evs @ evs') w = run evs' (run evs w)"
  by (simp add: run_def)

lemma run_w_v [simp]: "w_v (run evs w) = w_v w"
  by (induction evs arbitrary: w) simp_all

lemma run_w_k [simp]: "w_k (run evs w) = w_k w"
  by (induction evs arbitrary: w) simp_all

lemma run_clock_mono: "clock w \<le> clock (run evs w)"
proof (induction evs arbitrary: w)
  case Nil
  show ?case by simp
next
  case (Cons ev evs)
  have "clock w \<le> clock (deliver ev w)" by simp
  also have "\<dots> \<le> clock (run evs (deliver ev w))" by (rule Cons.IH)
  finally show ?case by simp
qed

lemma deliver_resolved: "promise w = Resolved u \<Longrightarrow> promise (deliver ev w) = Resolved u"
  by (cases ev w rule: deliver_cases) (simp_all add: advance_resolved)

lemma run_resolved: "promise w = Resolved u \<Longrightarrow> promise (run evs w) = Resolved u"
  by (induction evs arbitrary: w) (simp_all add: deliver_resolved)

lemma deliver_interval_cleared: "intervalId w = None \<Longrightarrow> intervalId (deliver ev w) = None"
proof (cases ev w rule: deliver_cases)
  case (txt_answer addr res)
  assume "intervalId w = None"
  then have "intervalId (advance (fst ev) w\<lparr> txt_inflight := remove1 addr (txt_inflight w) \<rparr>) = None"
    by (simp add: advance_interval_cleared)
  then show ?thesis
    using txt_callback_intervalId
      [of res "advance (fst ev) w\<lparr> txt_inflight := remove1 addr (txt_inflight w) \<rparr>"]
    unfolding txt_answer(3) by auto
qed (simp_all add: advance_interval_cleared)

lemma run_interval_cleared: "intervalId w = None \<Longrightarrow> intervalId (run evs w) = None"
  by (induction evs arbitrary: w) (simp_all add: deliver_interval_cleared)

subsection \<open>Why a promise is fulfilled\<close>

lemma advance_resolved_cause:
  assumes "promise (advance t w) = Resolved ()"
  shows "promise w = Resolved () \<or> (\<exists>d \<in> set (timeouts w). d \<le> t)"
proof -
  let ?P = "\<lambda>x. set (timeouts x) \<subseteq> set (timeouts w) \<and>
     (promise x = Resolved () \<longrightarrow> promise w = Resolved () \<or> (\<exists>d \<in> set (timeouts w). d \<le> t))"
  have "?P (advance t w)"
  proof (rule advance_rule [where P = ?P])
    show "?P w" by simp
  next
    fix x d tm
    assume a: "?P x" and n: "next_timer x = Some (d, tm)" and le: "d \<le> t"
    from n show "?P (fire tm d x)"
    proof (cases rule: next_timer_cases)
      case interval
      then show ?thesis using a by simp
    next
      case (timeout xs)
      then have "d \<in> set (timeouts w)" using a by auto
      then show ?thesis using a le timeout by (auto dest: list.set_sel(2) [rotated])
    qed
  next
    fix x
    assume "?P x"
    then show "?P (x\<lparr> clock := max (clock x) t \<rparr>)" by simp
  qed
  then show ?thesis using assms by simp
qed

lemma deliver_resolved_cause:
  assumes "promise (deliver ev w) = Resolved ()"
  shows "promise w = Resolved () \<or> (\<exists>d \<in> set (timeouts w). d \<le> fst ev)"
  using assms
  by (cases ev w rule: deliver_cases) (auto dest: advance_resolved_cause)

lemma deliver_timeouts_cause:
  assumes "d \<in> set (timeouts (deliver ev w))"
    and "set (txt_inflight w) \<subseteq> set targets"
  shows "d \<in> set (timeouts w) \<or>
         (d = max (clock w) (fst ev) + 15 * 1000 \<and> reply_shows (w_v w) targets (snd ev))"
proof (cases ev w rule: deliver_cases)
  case idle
  then show ?thesis using assms(1) advance_timeouts_subset by auto
next
  case (cname_answer res)
  then show ?thesis using assms(1) advance_timeouts_subset by auto
next
  case (txt_answer addr res)
  let ?x = "advance (fst ev) w\<lparr> txt_inflight := remove1 addr (txt_inflight w) \<rparr>"
  have sub: "set (timeouts ?x) \<subseteq> set (timeouts w)"
    using advance_timeouts_subset by simp
  from txt_callback_timeouts [of res ?x] show ?thesis
  proof
    assume "timeouts (txt_callback res ?x) = timeouts ?x"
    then show ?thesis using assms(1) sub txt_answer(3) by auto
  next
    assume "\<exists>result. res = Inr result \<and> w_v ?x \<in> set (concat result) \<and>
      timeouts (txt_callback res ?x) = timeouts ?x @ [clock ?x + 15 * 1000]"
    then obtain result where r: "res = Inr result" "w_v w \<in> set (concat result)"
      "timeouts (txt_callback res ?x) = timeouts ?x @ [clock ?x + 15 * 1000]"
      by auto
    have "reply_shows (w_v w) targets (snd ev)"
      using txt_answer(1,2) r(1,2) assms(2) by auto
    then show ?thesis using assms(1) sub txt_answer(3) r(3) by auto
  qed
qed

lemma deliver_txt_inflight_subset:
  "set (txt_inflight w) \<subseteq> set targets \<Longrightarrow>
   set (txt_inflight (deliver ev w)) \<subseteq> set (targets @ reply_targets (snd ev))"
  by (cases ev w rule: deliver_cases) (auto dest: notin_set_remove1 [rotated] set_remove1_subset [THEN subsetD])

lemma observations_after: "t0 \<in> set (observations v targets c evs) \<Longrightarrow> c \<le> t0"
proof (induction evs arbitrary: targets c)
  case Nil
  then show ?case by simp
next
  case (Cons ev evs)
  then show ?case by (fastforce simp: Let_def split: if_splits)
qed

lemma run_resolved_cause:
  assumes "set (txt_inflight w) \<subseteq> set targets"
    and "promise (run evs w) = Resolved ()"
  shows "promise w = Resolved () \<or>
         (\<exists>d \<in> set (timeouts w). d \<le> clock (run evs w)) \<or>
         (\<exists>t0 \<in> set (observations (w_v w) targets (clock w) evs).
            t0 + 15 * 1000 \<le> clock (run evs w))"
  using assms
proof (induction evs arbitrary: w targets)
  case Nil
  then show ?case by simp
next
  case (Cons ev evs)
  let ?w1 = "deliver ev w"
  let ?targets1 = "targets @ reply_targets (snd ev)"
  let ?final = "clock (run evs ?w1)"
  have mono: "max (clock w) (fst ev) \<le> ?final"
    using run_clock_mono [of ?w1 evs] by simp
  have sub: "set (txt_inflight ?w1) \<subseteq> set ?targets1"
    using Cons.prems(1) by (rule deliver_txt_inflight_subset)
  have res: "promise (run evs ?w1) = Resolved ()" using Cons.prems(2) by simp
  from Cons.IH [OF sub res]
  consider (now) "promise ?w1 = Resolved ()"
    | (timeout) d where "d \<in> set (timeouts ?w1)" "d \<le> ?final"
    | (later) t0 where "t0 \<in> set (observations (w_v w) ?targets1 (max (clock w) (fst ev)) evs)"
        "t0 + 15 * 1000 \<le> ?final"
    by auto
  then show ?case
  proof cases
    case now
    then have "promise w = Resolved () \<or> (\<exists>d \<in> set (timeouts w). d \<le> fst ev)"
      by (rule deliver_resolved_cause)
    then have "promise w = Resolved () \<or> (\<exists>d \<in> set (timeouts w). d \<le> clock (run (ev # evs) w))"
    proof
      assume "promise w = Resolved ()"
      then show ?thesis by simp
    next
      assume "\<exists>d \<in> set (timeouts w). d \<le> fst ev"
      then obtain d where "d \<in> set (timeouts w)" "d \<le> fst ev" by auto
      moreover have "fst ev \<le> clock (run (ev # evs) w)" using mono by simp
      ultimately have "d \<in> set (timeouts w)" "d \<le> clock (run (ev # evs) w)"
        by (simp_all del: run_Cons)
      then show ?thesis by blast
    qed
    then show ?thesis by blast
  next
    case (timeout d)
    from deliver_timeouts_cause [OF timeout(1) Cons.prems(1)] show ?thesis
    proof
      assume "d \<in> set (timeouts w)"
      then have "\<exists>d \<in> set (timeouts w). d \<le> clock (run (ev # evs) w)"
        using timeout(2) by auto
      then show ?thesis by blast
    next
      assume "d = max (clock w) (fst ev) + 15 * 1000 \<and> reply_shows (w_v w) targets (snd ev)"
      then have "max (clock w) (fst ev) \<in> set (observations (w_v w) targets (clock w) (ev # evs))"
        and "max (clock w) (fst ev) + 15 * 1000 \<le> ?final"
        using timeout(2) by (simp_all add: Let_def)
      then show ?thesis by (metis run_Cons)
    qed
  next
    case (later t0)
    then have "t0 \<in> set (observations (w_v w) targets (clock w) (ev # evs))"
      by (simp add: Let_def)
    then show ?thesis using later(2) by (metis run_Cons)
  qed
qed

subsection \<open>A pending timeout fires when it is due\<close>

lemma advance_timeout_fires:
  assumes "watcher_ok w" and "d \<in> set (timeouts w)" and "d \<le> t"
  shows "promise (advance t w) = Resolved ()"
proof -
  let ?P = "\<lambda>x. loop_ok x \<and> (d \<in> set (timeouts x) \<or> promise x = Resolved ())"
  show ?thesis
  proof (rule advance_rule [where P = ?P])
    show "?P w" using assms watcher_ok_loop_ok by simp
  next
    fix x d' tm
    assume a: "?P x" and n: "next_timer x = Some (d', tm)" and "d' \<le> t"
    have ok: "loop_ok (fire tm d' x)" using a n loop_ok_fire by blast
    from n show "?P (fire tm d' x)"
    proof (cases rule: next_timer_cases)
      case interval
      then show ?thesis using a ok by simp
    next
      case (timeout xs)
      have "promise x = Pending \<or> promise x = Resolved ()" using a by (simp add: loop_ok_def)
      then have "promise (fire tm d' x) = Resolved ()" using timeout by auto
      then show ?thesis using ok by simp
    qed
  next
    fix x
    assume a: "?P x" and q: "quiet t x"
    have "promise x = Resolved ()"
    proof (rule ccontr)
      assume "promise x \<noteq> Resolved ()"
      then have "d \<in> set (timeouts x)" using a by simp
      then have "t < d" using a q quiet_timeouts by blast
      then show False using assms(3) by simp
    qed
    then show "promise (x\<lparr> clock := max (clock x) t \<rparr>) = Resolved ()" by simp
  qed
qed

lemma advance_timeout_stays:
  assumes "d \<in> set (timeouts w)" and "t < d"
  shows "d \<in> set (timeouts (advance t w))"
proof (rule advance_rule [where P = "\<lambda>x. d \<in> set (timeouts x)"])
  show "d \<in> set (timeouts w)" by fact
next
  fix x d' tm
  assume a: "d \<in> set (timeouts x)" and n: "next_timer x = Some (d', tm)" and le: "d' \<le> t"
  from n show "d \<in> set (timeouts (fire tm d' x))"
    using a le assms(2) by (cases rule: next_timer_cases) auto
next
  fix x
  assume "d \<in> set (timeouts x)"
  then show "d \<in> set (timeouts (x\<lparr> clock := max (clock x) t \<rparr>))" by simp
qed

lemma txt_callback_timeouts_grow: "set (timeouts w) \<subseteq> set (timeouts (txt_callback res w))"
  using txt_callback_timeouts [of res w] by auto

lemma deliver_timeout_fires:
  assumes "watcher_ok w" and "d \<in> set (timeouts w)" and "d \<le> fst ev"
  shows "promise (deliver ev w) = Resolved ()"
  using advance_timeout_fires [OF assms]
  by (cases ev w rule: deliver_cases) simp_all

lemma deliver_timeout_stays:
  assumes "d \<in> set (timeouts w)" and "fst ev < d"
  shows "d \<in> set (timeouts (deliver ev w))"
proof (cases ev w rule: deliver_cases)
  case (txt_answer addr res)
  let ?x = "advance (fst ev) w\<lparr> txt_inflight := remove1 addr (txt_inflight w) \<rparr>"
  have "d \<in> set (timeouts ?x)" using advance_timeout_stays [OF assms] by simp
  then show ?thesis using txt_callback_timeouts_grow [of ?x res] txt_answer(3) by auto
qed (simp_all add: advance_timeout_stays [OF assms])

lemma run_timeout_fires:
  assumes "watcher_ok w" and "d \<in> set (timeouts w)" and "d \<le> clock (run evs w)"
  shows "promise (run evs w) = Resolved ()"
  using assms
proof (induction evs arbitrary: w)
  case Nil
  then show ?case by (auto simp: watcher_ok_def)
next
  case (Cons ev evs)
  show ?case
  proof (cases "d \<le> fst ev")
    case True
    then have "promise (deliver ev w) = Resolved ()"
      using Cons.prems(1,2) deliver_timeout_fires by blast
    then show ?thesis by (simp add: run_resolved)
  next
    case False
    then have "d \<in> set (timeouts (deliver ev w))"
      using Cons.prems(2) deliver_timeout_stays by simp
    moreover have "watcher_ok (deliver ev w)" using Cons.prems(1) by (rule watcher_ok_deliver)
    ultimately show ?thesis using Cons.IH Cons.prems(3) by simp
  qed
qed

subsection \<open>A cleared interval issues no further CNAME query\<close>

lemma advance_cname_queries:
  assumes "intervalId w = None"
  shows "cname_queries (advance t w) = cname_queries w"
proof -
  let ?P = "\<lambda>x. intervalId x = None \<and> cname_queries x = cname_queries w"
  have "?P (advance t w)"
  proof (rule advance_rule [where P = ?P])
    show "?P w" using assms by simp
  next
    fix x d tm
    assume a: "?P x" and n: "next_timer x = Some (d, tm)"
    from n show "?P (fire tm d x)"
      using a by (cases rule: next_timer_cases) (auto simp: cname_queries_def)
  next
    fix x
    assume "?P x"
    then show "?P (x\<lparr> clock := max (clock x) t \<rparr>)" by (simp add: cname_queries_def)
  qed
  then show ?thesis by simp
qed

lemma deliver_cname_queries:
  assumes "intervalId w = None"
  shows "cname_queries (deliver ev w) = cname_queries w"
  using advance_cname_queries [OF assms, of "fst ev"]
  by (cases ev w rule: deliver_cases) (auto simp: cname_queries_def)

lemma run_cname_queries:
  "intervalId w = None \<Longrightarrow> cname_queries (run evs w) = cname_queries w"
  by (induction evs arbitrary: w) (simp_all add: deliver_cname_queries deliver_interval_cleared)

subsection \<open>The interval fires when it is due\<close>

lemma advance_interval_fires:
  assumes "watcher_ok w" and "intervalId w = Some d"
  shows "wlog (advance d w) = wlog w @ [(d, Query (ResolveCname (w_k w)))]"
proof -
  from assms have t: "timeouts w = []" and c: "clock w < d"
    by (simp_all add: watcher_ok_def)
  let ?x = "fire IntervalTimer d w"
  have 1: "next_timer w = Some (d, IntervalTimer)" using assms(2) t by (simp add: next_timer_def)
  have 2: "next_timer ?x = Some (d + 5 * 1000, IntervalTimer)" using t by (simp add: next_timer_def)
  have "advance d w = advance d ?x" using 1 by (simp add: advance_fire)
  also have "\<dots> = ?x\<lparr> clock := max (clock ?x) d \<rparr>" using 2 by (simp add: advance_wait)
  finally show ?thesis using c by (simp add: max_def)
qed

subsection \<open>States reached from a fresh watcher\<close>

lemmas watcher_eval =
  run_def deliver_def waitUntilVerify_def next_timer_def fire_def interval_callback_def
  cname_callback_def txt_callback_def resolveTxt_call_def timeout_callback_def advance.simps
  cname_queries_def Let_def

lemma initial_w_v [simp]: "w_v (waitUntilVerify r) = rec_value r"
  by (simp add: waitUntilVerify_def)

lemma initial_w_k [simp]: "w_k (waitUntilVerify r) = rec_key r"
  by (simp add: waitUntilVerify_def)

lemma initial_fields [simp]:
  "clock (waitUntilVerify r) = 0"
  "txt_inflight (waitUntilVerify r) = []"
  "timeouts (waitUntilVerify r) = []"
  "promise (waitUntilVerify r) = Pending"
  by (simp_all add: waitUntilVerify_def)

lemma watcher_ok_reachable: "watcher_ok (run evs (waitUntilVerify r))"
  by (rule watcher_ok_run [OF watcher_ok_initial])

lemma watcher_ok_promise: "watcher_ok w \<Longrightarrow> promise w = Pending \<or> promise w = Resolved ()"
  by (simp add: watcher_ok_def)

lemma resolved_after_observation:
  assumes "promise (run evs (waitUntilVerify r)) = Resolved ()"
  shows "\<exists>t0 \<in> set (observations (rec_value r) [] 0 evs).
           t0 + 15 * 1000 \<le> clock (run evs (waitUntilVerify r))"
  using run_resolved_cause [of "waitUntilVerify r" "[]" evs] assms by simp

lemma deliver_observation:
  assumes "addr \<in> set (txt_inflight w)" and "w_v w \<in> set (concat result)"
  shows "deliver (t, Some (TxtReply addr (Inr result))) w =
           advance t w\<lparr> txt_inflight := remove1 addr (txt_inflight w),
                         timeouts := timeouts (advance t w) @ [max (clock w) t + 15 * 1000],
                         intervalId := None \<rparr>"
  using assms by (simp add: deliver_txt txt_callback_found)

lemma pending_until_settled:
  assumes ok: "watcher_ok w" and p: "promise w = Pending" and t: "timeouts w = []"
    and a: "addr \<in> set (txt_inflight w)" and v: "w_v w \<in> set (concat result)"
    and early: "clock (run evs (deliver (t, Some (TxtReply addr (Inr result))) w))
                  < max (clock w) t + 15 * 1000"
  shows "promise (run evs (deliver (t, Some (TxtReply addr (Inr result))) w)) = Pending"
proof -
  let ?w1 = "deliver (t, Some (TxtReply addr (Inr result))) w"
  have w1: "?w1 = advance t w\<lparr> txt_inflight := remove1 addr (txt_inflight w),
                         timeouts := timeouts (advance t w) @ [max (clock w) t + 15 * 1000],
                         intervalId := None \<rparr>"
    using a v by (rule deliver_observation)
  have "promise (advance t w) \<noteq> Resolved ()"
    using advance_resolved_cause [of t w] p t by auto
  then have p1: "promise ?w1 \<noteq> Resolved ()" by (simp add: w1)
  have "set (timeouts (advance t w)) \<subseteq> {}" using advance_timeouts_subset [of t w] t by simp
  then have t1: "timeouts ?w1 = [max (clock w) t + 15 * 1000]" by (simp add: w1)
  have c1: "clock ?w1 = max (clock w) t" by simp
  have ok2: "watcher_ok (run evs ?w1)" using ok by (simp add: watcher_ok_deliver watcher_ok_run)
  have "promise (run evs ?w1) \<noteq> Resolved ()"
  proof
    assume r: "promise (run evs ?w1) = Resolved ()"
    have "set (txt_inflight ?w1) \<subseteq> set (txt_inflight ?w1)" by simp
    from run_resolved_cause [OF this r]
    consider "promise ?w1 = Resolved ()"
      | d where "d \<in> set (timeouts ?w1)" "d \<le> clock (run evs ?w1)"
      | t0 where "t0 \<in> set (observations (w_v ?w1) (txt_inflight ?w1) (clock ?w1) evs)"
          "t0 + 15 * 1000 \<le> clock (run evs ?w1)"
      by blast
    then show False
    proof cases
      case 1
      then show False using p1 by simp
    next
      case (2 d)
      then show False using t1 early by simp
    next
      case (3 t0)
      from 3(1) have "clock ?w1 \<le> t0" by (rule observations_after)
      then have "max (clock w) t \<le> t0" by simp
      then show False using 3(2) early by linarith
    qed
  qed
  then show ?thesis using watcher_ok_promise [OF ok2] by simp
qed

subsection \<open>Failing answers\<close>

lemma deliver_cname_error:
  "deliver (t, Some (CnameReply (Inl e))) w =
     (if cname_inflight (advance t w) = 0 then advance t w
      else advance t w\<lparr> cname_inflight := cname_inflight (advance t w) - 1 \<rparr>)"
  by (simp add: deliver_cname)

lemma deliver_txt_error:
  "deliver (t, Some (TxtReply addr (Inl e))) w =
     advance t w\<lparr> txt_inflight := remove1 addr (txt_inflight w) \<rparr>"
  by (simp add: deliver_txt remove1_idem)

lemma next_poll:
  assumes "watcher_ok w" and "intervalId w = Some d" and "w_k w = k"
  shows "clock w < d \<and> d \<le> clock w + 5 * 1000 \<and> 5 * 1000 dvd d \<and>
         wlog (deliver (d, None) w) = wlog w @ [(d, Query (ResolveCname k))]"
  using assms advance_interval_fires [OF assms(1,2)]
  by (simp add: watcher_ok_def deliver_idle)

subsection \<open>The interval stays armed until the value is observed\<close>

lemma advance_armed:
  assumes "intervalId w = Some d"
  shows "\<exists>d'. intervalId (advance t w) = Some d'"
proof (rule advance_rule [where P = "\<lambda>x. \<exists>d'. intervalId x = Some d'"])
  show "\<exists>d'. intervalId w = Some d'" using assms by simp
next
  fix x d' tm
  assume a: "\<exists>d'. intervalId x = Some d'" and n: "next_timer x = Some (d', tm)"
  from n show "\<exists>d''. intervalId (fire tm d' x) = Some d''"
    using a by (cases rule: next_timer_cases) simp_all
next
  fix x
  assume "\<exists>d'. intervalId x = Some d'"
  then show "\<exists>d'. intervalId (x\<lparr> clock := max (clock x) t \<rparr>) = Some d'" by simp
qed

lemma txt_callback_armed:
  assumes "intervalId w = Some d" and "\<not> (\<exists>result. res = Inr result \<and> w_v w \<in> set (concat result))"
  shows "intervalId (txt_callback res w) = Some d"
  using assms by (cases res) (simp_all add: txt_callback_def Let_def)

lemma deliver_armed:
  assumes "set (txt_inflight w) \<subseteq> set targets" and "intervalId w = Some d"
    and "\<not> reply_shows (w_v w) targets (snd ev)"
  shows "\<exists>d'. intervalId (deliver ev w) = Some d'"
proof (cases ev w rule: deliver_cases)
  case idle
  then show ?thesis using advance_armed [OF assms(2)] by simp
next
  case (cname_answer res)
  then show ?thesis using advance_armed [OF assms(2), of "fst ev"] by auto
next
  case (txt_answer addr res)
  let ?x = "advance (fst ev) w\<lparr> txt_inflight := remove1 addr (txt_inflight w) \<rparr>"
  from advance_armed [OF assms(2), of "fst ev"] obtain d' where d': "intervalId ?x = Some d'"
    by auto
  have "addr \<in> set targets" using txt_answer(2) assms(1) by auto
  then have "\<not> (\<exists>result. res = Inr result \<and> w_v ?x \<in> set (concat result))"
    using assms(3) txt_answer(1) by auto
  with d' have "intervalId (txt_callback res ?x) = Some d'" by (rule txt_callback_armed)
  then show ?thesis using txt_answer(3) by simp
qed

lemma run_armed:
  assumes "set (txt_inflight w) \<subseteq> set targets" and "intervalId w = Some d"
    and "observations (w_v w) targets (clock w) evs = []"
  shows "\<exists>d'. intervalId (run evs w) = Some d'"
  using assms
proof (induction evs arbitrary: w targets d)
  case Nil
  then show ?case by simp
next
  case (Cons ev evs)
  from Cons.prems(3) have no: "\<not> reply_shows (w_v w) targets (snd ev)"
    and rest: "observations (w_v w) (targets @ reply_targets (snd ev)) (max (clock w) (fst ev)) evs = []"
    by (simp_all add: Let_def split: if_splits)
  from deliver_armed [OF Cons.prems(1,2) no] obtain d' where d': "intervalId (deliver ev w) = Some d'"
    by blast
  have sub: "set (txt_inflight (deliver ev w)) \<subseteq> set (targets @ reply_targets (snd ev))"
    using Cons.prems(1) by (rule deliver_txt_inflight_subset)
  have "observations (w_v (deliver ev w)) (targets @ reply_targets (snd ev))
          (clock (deliver ev w)) evs = []"
    using rest by simp
  from Cons.IH [OF sub d' this] show ?case by simp
qed

lemma armed_until_observed:
  assumes "observations (rec_value r) [] 0 evs = []"
  shows "\<exists>d. intervalId (run evs (waitUntilVerify r)) = Some d"
proof -
  have "intervalId (waitUntilVerify r) = Some (5 * 1000)" by (simp add: waitUntilVerify_def)
  from run_armed [OF _ this, of "[]" evs] show ?thesis using assms by simp
qed

lemma observations_cname_failure:
  "observations v targets c (evs @ [(t, Some (CnameReply (Inl e)))]) = observations v targets c evs"
  by (induction evs arbitrary: targets c) (simp_all add: Let_def)

lemma observations_txt_failure:
  "observations v targets c (evs @ [(t, Some (TxtReply addr (Inl e)))]) = observations v targets c evs"
  by (induction evs arbitrary: targets c) (simp_all add: Let_def)

lemma polling_continues:
  assumes "observations (rec_value r) [] 0 evs = []"
  shows "\<exists>d. intervalId (run evs (waitUntilVerify r)) = Some d \<and>
           clock (run evs (waitUntilVerify r)) < d \<and>
           d \<le> clock (run evs (waitUntilVerify r)) + 5 * 1000 \<and> 5 * 1000 dvd d \<and>
           wlog (deliver (d, None) (run evs (waitUntilVerify r))) =
             wlog (run evs (waitUntilVerify r)) @ [(d, Query (ResolveCname (rec_key r)))]"
proof -
  from armed_until_observed [OF assms] obtain d
    where d: "intervalId (run evs (waitUntilVerify r)) = Some d" ..
  have ok: "watcher_ok (run evs (waitUntilVerify r))" by (rule watcher_ok_reachable)
  have k: "w_k (run evs (waitUntilVerify r)) = rec_key r" by simp
  from next_poll [OF ok d k] d show ?thesis by blast
qed

section \<open>Traces of the workflow\<close>

lemma await_Resolved [simp]: "await (tr, Resolved x) f = (tr @ fst (f x), snd (f x))"
  by (simp add: await_def)

lemma await_Rejected [simp]: "await (tr, Rejected e) f = (tr, Rejected e)"
  by (simp add: await_def)

lemma await_Pending [simp]: "await (tr, Pending) f = (tr, Pending)"
  by (simp add: await_def)

lemma call_Inl [simp]: "call a (Inl e) = ([a], Rejected e)"
  by (simp add: call_def)

lemma call_Inr [simp]: "call a (Inr x) = ([a], Resolved x)"
  by (simp add: call_def)

lemma fst_call [simp]: "fst (call a res) = [a]"
  by (simp add: call_def)

lemma fst_await:
  "fst (await m f) = fst m @ (case snd m of Resolved x \<Rightarrow> fst (f x) | Rejected e \<Rightarrow> [] | Pending \<Rightarrow> [])"
  by (simp add: await_def split: promise.splits)

lemma in_await_trace:
  assumes "a \<in> set (fst (await m f))"
  obtains (head) "a \<in> set (fst m)"
  | (rest) x where "snd m = Resolved x" "a \<in> set (fst (f x))"
  using assms by (cases "snd m") (auto simp: fst_await)

text \<open>The stages of \<^verbatim>\<open>startWorker\<close> before the records are pushed make no other kind of call.\<close>

lemma initialize_trace:
  "a \<in> set (fst (initialize env u)) \<Longrightarrow> \<not> is_publish a \<and> \<not> is_finalize a \<and> \<not> is_watch a"
  by (cases "acme_createPrivateKey env") (auto simp: initialize_def)

lemma createAccount_trace:
  "a \<in> set (fst (createAccount env email)) \<Longrightarrow> \<not> is_publish a \<and> \<not> is_finalize a \<and> \<not> is_watch a"
  by (auto simp: createAccount_def)

lemma fetchDomains_trace:
  "a \<in> set (fst (fetchDomains env u)) \<Longrightarrow> \<not> is_publish a \<and> \<not> is_finalize a \<and> \<not> is_watch a"
  by (auto simp: fetchDomains_def)

lemma getChallenges_trace:
  "a \<in> set (fst (getChallenges env domains)) \<Longrightarrow> \<not> is_publish a \<and> \<not> is_finalize a \<and> \<not> is_watch a"
  unfolding getChallenges_def Let_def
  by (elim in_await_trace) (auto split: sum.splits)

lemma expected_record_trace:
  "fst (expected_record env c) = [GetChallengeKeyAuthorization (sel_challenge c)]"
  by (simp add: expected_record_def fst_await split: promise.splits)

lemma expected_records_trace:
  "a \<in> set (fst (all_tasks (map (expected_record env) cs))) \<Longrightarrow>
   \<not> is_publish a \<and> \<not> is_finalize a \<and> \<not> is_watch a"
  by (auto simp: all_tasks_def expected_record_trace)

lemma pushRecords_trace [simp]:
  "fst (pushRecords env u records) = [RegisterChallenges u (map rec_value records)]"
  by (simp add: pushRecords_def)

lemma watch_log_trace: "a \<in> set (watch_log ws) \<Longrightarrow> is_watch a"
  by (auto simp: watch_log_def)

lemma awaitAllVerified_trace:
  "a \<in> set (fst (awaitAllVerified records evs)) \<Longrightarrow> is_watch a"
  by (simp add: awaitAllVerified_def Let_def watch_log_trace)

lemma finalize_trace: "a \<in> set (fst (finalize env c)) \<Longrightarrow> is_finalize a"
  unfolding finalize_def by (elim in_await_trace) auto

lemma finalize_all_trace:
  "a \<in> set (fst (all_tasks (map (finalize env) cs))) \<Longrightarrow> is_finalize a"
  by (auto simp: all_tasks_def finalize_trace)

lemma issue_trace:
  "a \<in> set (fst (issue env u domains order)) \<Longrightarrow> \<not> is_publish a \<and> \<not> is_finalize a \<and> \<not> is_watch a"
  unfolding issue_def Let_def
  by (erule in_await_trace; (clarsimp split: prod.splits)?; (elim in_await_trace)?; auto)

lemma is_kinds_disjoint:
  "is_watch a \<Longrightarrow> \<not> is_publish a \<and> \<not> is_finalize a"
  "is_finalize a \<Longrightarrow> \<not> is_publish a \<and> \<not> is_watch a"
  "is_publish a \<Longrightarrow> \<not> is_finalize a \<and> \<not> is_watch a"
  by (cases a; simp)+

lemma await_assoc: "await (await m f) g = await m (\<lambda>x. await (f x) g)"
  by (cases m; cases "snd m") (auto simp: await_def split: promise.splits)

lemma await_return [simp]: "await ([], Resolved x) f = f x"
  by (simp add: await_def)

lemma startWorker_split:
  "startWorker env u evs =
     await (prepare env u) (\<lambda>p.
     await (pushRecords env u (snd (snd (snd p)))) (\<lambda>_. after_publish env u evs p))"
  by (simp add: startWorker_def prepare_def after_publish_def await_assoc split_def)

lemma prepare_trace:
  "a \<in> set (fst (prepare env u)) \<Longrightarrow> \<not> is_publish a \<and> \<not> is_finalize a \<and> \<not> is_watch a"
  unfolding prepare_def
  by (elim in_await_trace; (clarsimp split: prod.splits)?; (elim in_await_trace)?)
     (auto dest: initialize_trace createAccount_trace fetchDomains_trace getChallenges_trace
        expected_records_trace)

lemma snd_call_not_pending [simp]: "snd (call a res) \<noteq> Pending"
  by (cases res) simp_all

lemma promise_all_not_pending:
  "\<forall>p \<in> set ps. p \<noteq> Pending \<Longrightarrow> promise_all ps \<noteq> Pending"
  by (induction ps) (auto split: promise.splits)

lemma await_not_pending:
  "snd m \<noteq> Pending \<Longrightarrow> (\<And>x. snd (f x) \<noteq> Pending) \<Longrightarrow> snd (await m f) \<noteq> Pending"
  by (cases "snd m") (auto simp: await_def)

lemma expected_record_not_pending: "snd (expected_record env c) \<noteq> Pending"
  by (simp add: expected_record_def await_not_pending)

lemma getChallenges_not_pending: "snd (getChallenges env domains) \<noteq> Pending"
  unfolding getChallenges_def Let_def
  by (intro await_not_pending) (simp_all split: sum.splits)

lemma initialize_not_pending: "snd (initialize env u) \<noteq> Pending"
  by (simp add: initialize_def await_not_pending)

lemma expected_records_not_pending:
  "snd (all_tasks (map (expected_record env) cs)) \<noteq> Pending"
  by (simp add: all_tasks_def promise_all_not_pending expected_record_not_pending)

lemma prepare_not_pending: "snd (prepare env u) \<noteq> Pending"
  unfolding prepare_def
proof (intro await_not_pending initialize_not_pending getChallenges_not_pending)
  fix email show "snd (createAccount env email) \<noteq> Pending" by (simp add: createAccount_def)
next
  show "snd (fetchDomains env u) \<noteq> Pending" by (simp add: fetchDomains_def)
next
  fix email :: string and x :: unit and domains :: "string list" and oc :: "order \<times> selected list"
  show "snd (case oc of (order, challenges) \<Rightarrow>
          await (all_tasks (map (expected_record env) challenges))
            (\<lambda>records. ([], Resolved (domains, order, challenges, records)))) \<noteq> Pending"
    by (cases oc) (simp add: await_not_pending expected_records_not_pending)
qed

lemma after_publish_trace:
  "a \<in> set (fst (after_publish env u evs p)) \<Longrightarrow> \<not> is_publish a"
  unfolding after_publish_def
  by (cases p)
     (auto elim!: in_await_trace
        dest: awaitAllVerified_trace finalize_all_trace issue_trace is_kinds_disjoint)

lemma startWorker_unfold:
  "startWorker env u evs =
     (case snd (prepare env u) of
        Resolved p \<Rightarrow>
          (case rpc_registerChallenges env u (map rec_value (snd (snd (snd p)))) of
             Inl e \<Rightarrow>
               (fst (prepare env u) @ [RegisterChallenges u (map rec_value (snd (snd (snd p))))],
                Rejected e)
           | Inr ok \<Rightarrow>
               (fst (prepare env u) @
                  RegisterChallenges u (map rec_value (snd (snd (snd p)))) #
                  fst (after_publish env u evs p),
                snd (after_publish env u evs p)))
      | Rejected e \<Rightarrow> (fst (prepare env u), Rejected e)
      | Pending \<Rightarrow> (fst (prepare env u), Pending))"
  unfolding startWorker_split
  by (cases "prepare env u")
     (auto simp: pushRecords_def split: promise.splits sum.splits)

lemma startWorker_not_prepared:
  assumes "snd (prepare env u) = Rejected e"
  shows "startWorker env u evs = (fst (prepare env u), Rejected e)"
  by (simp add: startWorker_unfold assms)

lemma not_prepared_no_publish:
  assumes "snd (prepare env u) = Rejected e"
  shows "\<forall>a \<in> set (fst (startWorker env u evs)). \<not> is_publish a"
  using prepare_trace by (auto simp: startWorker_not_prepared [OF assms])

lemma prepare_fetch_failed:
  assumes "rpc_fetchDomains env u = Inl e"
  shows "\<exists>e'. snd (prepare env u) = Rejected e'"
  using assms
  by (cases "acme_createPrivateKey env"; cases "rpc_registerClient env u";
      cases "acme_createAccount env [''mailto:'' @ projr (rpc_registerClient env u)]")
     (simp_all add: prepare_def initialize_def createAccount_def fetchDomains_def)

lemma prepare_fetch_failed_exact:
  assumes "rpc_fetchDomains env u = Inl e"
    and "acme_createPrivateKey env = Inr k" and "rpc_registerClient env u = Inr email"
    and "acme_createAccount env [''mailto:'' @ email] = Inr ()"
  shows "prepare env u =
    ([CreatePrivateKey, RegisterClient u, CreateAccount [''mailto:'' @ email], FetchDomains u],
     Rejected e)"
  using assms by (simp add: prepare_def initialize_def createAccount_def fetchDomains_def)

text \<open>For evaluation: the rest of an \<^verbatim>\<open>async\<close> function is evaluated once.\<close>

lemma await_eval:
  "await (tr, Resolved x) f = (case f x of (tr', p) \<Rightarrow> (tr @ tr', p))"
  by (simp add: split_def)

lemmas workflow_eval = await_eval
  startWorker_def initialize_def createAccount_def fetchDomains_def getChallenges_def
  select_dns01_def expected_record_def pushRecords_def awaitAllVerified_def finalize_def
  issue_def all_tasks_def watch_log_def deliver_all_def event_for_def b64_char_def Buffer_from_def
  demo_env_def demo_domains_def demo_authorization_def demo_challenges_def Let_def

section \<open>Selecting the DNS-01 challenge\<close>

lemma filter_find: "filter P xs = y # ys \<Longrightarrow> find P xs = Some y"
  by (induction xs) (auto split: if_splits)

lemma select_dns01_Inr:
  assumes "select_dns01 a = Inr c"
  shows "sel_auth c = a \<and> find is_dns01 (auth_challenges a) = Some (sel_challenge c)"
proof -
  let ?filters = "filter (\<lambda>c. ch_type c = ''dns-01'') (auth_challenges a)"
  from assms have ne: "?filters \<noteq> []" and c: "c = \<lparr> sel_auth = a, sel_challenge = ?filters ! 0 \<rparr>"
    by (auto simp: select_dns01_def Let_def split: if_splits)
  from ne obtain y ys where ys: "?filters = y # ys" by (cases ?filters) auto
  then have "find (\<lambda>c. ch_type c = ''dns-01'') (auth_challenges a) = Some y" by (rule filter_find)
  moreover have "is_dns01 = (\<lambda>c. ch_type c = ''dns-01'')" by (auto simp: is_dns01_def)
  ultimately show ?thesis using c ys by simp
qed



lemma map_throwing_Inr:
  "map_throwing f xs = Inr ys \<Longrightarrow>
   length ys = length xs \<and> (\<forall>i < length xs. f (xs ! i) = Inr (ys ! i))"
proof (induction xs arbitrary: ys)
  case Nil
  then show ?case by simp
next
  case (Cons x xs)
  from Cons.prems obtain y ys' where y: "f x = Inr y" and ys': "map_throwing f xs = Inr ys'"
    and ys: "ys = y # ys'"
    by (auto split: sum.splits)
  from Cons.IH [OF ys'] show ?case using y ys by (auto simp: nth_Cons split: nat.splits)
qed



lemma getChallenges_Resolved:
  assumes "snd (getChallenges env domains) = Resolved (order, cs)"
  shows "\<exists>authorizations. acme_getAuthorizations env order = Inr authorizations \<and>
           map_throwing select_dns01 authorizations = Inr cs"
  using assms unfolding getChallenges_def Let_def
  by (cases "acme_createOrder env (map (\<lambda>d. \<lparr>id_type = ''dns'', id_value = d\<rparr>) domains)";
      simp; cases "acme_getAuthorizations env (projr (acme_createOrder env (map (\<lambda>d. \<lparr>id_type = ''dns'', id_value = d\<rparr>) domains)))")
     (auto split: sum.splits)




section \<open>The expected records and their publication\<close>

lemma promise_all_ResolvedD: "promise_all ps = Resolved xs \<Longrightarrow> ps = map Resolved xs"
  by (induction ps arbitrary: xs) (auto split: promise.splits)

lemma promise_all_map_Resolved: "promise_all (map Resolved xs) = Resolved xs"
  by (induction xs) simp_all

lemma promise_all_Resolved: "promise_all ps = Resolved xs \<longleftrightarrow> ps = map Resolved xs"
  using promise_all_ResolvedD promise_all_map_Resolved by blast

lemma snd_expected_record:
  "snd (expected_record env c) =
     (case acme_getChallengeKeyAuthorization env (sel_challenge c) of
        Inl e \<Rightarrow> Rejected e
      | Inr ka \<Rightarrow> Resolved \<lparr> rec_key = ''_acme-challenge.'' @ id_value (auth_identifier (sel_auth c)),
                             rec_value = ka \<rparr>)"
  by (simp add: expected_record_def split: sum.splits)

lemma expected_record_ResolvedD:
  "snd (expected_record env c) = Resolved r \<Longrightarrow>
   rec_key r = ''_acme-challenge.'' @ id_value (auth_identifier (sel_auth c)) \<and>
   acme_getChallengeKeyAuthorization env (sel_challenge c) = Inr (rec_value r)"
  by (auto simp: snd_expected_record split: sum.splits)

lemma expected_records_Resolved:
  "snd (all_tasks (map (expected_record env) cs)) = Resolved records \<longleftrightarrow>
     length records = length cs \<and>
     (\<forall>i < length cs.
        rec_key (records ! i) = ''_acme-challenge.'' @ id_value (auth_identifier (sel_auth (cs ! i))) \<and>
        acme_getChallengeKeyAuthorization env (sel_challenge (cs ! i)) = Inr (rec_value (records ! i)))"
  (is "?l \<longleftrightarrow> ?r")
proof
  assume ?l
  then have m: "map (\<lambda>c. snd (expected_record env c)) cs = map Resolved records"
    by (simp add: all_tasks_def promise_all_Resolved comp_def)
  then have len: "length records = length cs" using map_eq_imp_length_eq by fastforce
  have each: "snd (expected_record env (cs ! i)) = Resolved (records ! i)" if "i < length cs" for i
    using m that len by (metis nth_map)
  have "rec_key (records ! i) =
        ''_acme-challenge.'' @ id_value (auth_identifier (sel_auth (cs ! i))) \<and>
      acme_getChallengeKeyAuthorization env (sel_challenge (cs ! i)) = Inr (rec_value (records ! i))"
    if "i < length cs" for i
    using each [OF that] by (rule expected_record_ResolvedD)
  then show ?r using len by blast
next
  assume r: ?r
  have "map (\<lambda>c. snd (expected_record env c)) cs = map Resolved records"
  proof (rule nth_equalityI)
    show "length (map (\<lambda>c. snd (expected_record env c)) cs) = length (map Resolved records)"
      using r by simp
  next
    fix i assume "i < length (map (\<lambda>c. snd (expected_record env c)) cs)"
    then have i: "i < length cs" by simp
    then have "snd (expected_record env (cs ! i)) = Resolved (records ! i)"
      using r by (simp add: snd_expected_record)
    then show "map (\<lambda>c. snd (expected_record env c)) cs ! i = map Resolved records ! i"
      using i r by simp
  qed
  then show ?l by (simp add: all_tasks_def promise_all_Resolved comp_def)
qed

lemma expected_records_exist:
  assumes "\<forall>c \<in> set cs. \<exists>ka. acme_getChallengeKeyAuthorization env (sel_challenge c) = Inr ka"
  shows "\<exists>records. snd (all_tasks (map (expected_record env) cs)) = Resolved records"
proof -
  let ?records = "map (\<lambda>c. \<lparr> rec_key = ''_acme-challenge.'' @ id_value (auth_identifier (sel_auth c)),
      rec_value = projr (acme_getChallengeKeyAuthorization env (sel_challenge c)) \<rparr>) cs"
  have "acme_getChallengeKeyAuthorization env (sel_challenge (cs ! i)) =
          Inr (projr (acme_getChallengeKeyAuthorization env (sel_challenge (cs ! i))))"
    if "i < length cs" for i
    using assms that by (metis nth_mem sum.sel(2))
  then have "snd (all_tasks (map (expected_record env) cs)) = Resolved ?records"
    unfolding expected_records_Resolved by simp
  then show ?thesis ..
qed

section \<open>Publication, issuance and the empty domain set\<close>

lemma prepare_Resolved:
  assumes "snd (prepare env u) = Resolved (domains, order, cs, records)"
  shows "rpc_fetchDomains env u = Inr domains \<and>
         snd (getChallenges env domains) = Resolved (order, cs) \<and>
         snd (all_tasks (map (expected_record env) cs)) = Resolved records"
proof -
  obtain t1 p1 where 1: "initialize env u = (t1, p1)" by (cases "initialize env u")
  obtain email where p1: "p1 = Resolved email"
    using assms 1 by (cases p1) (simp_all add: prepare_def)
  obtain t2 p2 where 2: "createAccount env email = (t2, p2)" by (cases "createAccount env email")
  obtain x where p2: "p2 = Resolved x"
    using assms 1 p1 2 by (cases p2) (simp_all add: prepare_def)
  obtain p3 where 3: "fetchDomains env u = ([FetchDomains u], p3)"
    by (cases "rpc_fetchDomains env u") (simp_all add: fetchDomains_def)
  obtain ds where p3: "p3 = Resolved ds"
    using assms 1 p1 2 p2 3 by (cases p3) (simp_all add: prepare_def)
  obtain t4 p4 where 4: "getChallenges env ds = (t4, p4)" by (cases "getChallenges env ds")
  obtain ord cs' where p4: "p4 = Resolved (ord, cs')"
    using assms 1 p1 2 p2 3 p3 4 by (cases p4) (auto simp: prepare_def)
  obtain t5 p5 where 5: "all_tasks (map (expected_record env) cs') = (t5, p5)"
    by (cases "all_tasks (map (expected_record env) cs')")
  obtain rs where p5: "p5 = Resolved rs"
    using assms 1 p1 2 p2 3 p3 4 p4 5 by (cases p5) (simp_all add: prepare_def)
  have eq: "domains = ds" "order = ord" "cs = cs'" "records = rs"
    using assms 1 p1 2 p2 3 p3 4 p4 5 p5 by (simp_all add: prepare_def)
  have "rpc_fetchDomains env u = Inr ds"
    using 3 p3 by (cases "rpc_fetchDomains env u") (simp_all add: fetchDomains_def)
  then show ?thesis using eq 4 p4 5 p5 by simp
qed

lemma startWorker_published:
  assumes "RegisterChallenges u' vals \<in> set (fst (startWorker env u evs))"
  obtains p where "snd (prepare env u) = Resolved p" "u' = u" "vals = map rec_value (snd (snd (snd p)))"
proof (cases "snd (prepare env u)")
  case Pending
  then show ?thesis using assms prepare_trace [of "RegisterChallenges u' vals" env u]
    by (simp add: startWorker_unfold)
next
  case (Rejected e)
  then show ?thesis using assms prepare_trace [of "RegisterChallenges u' vals" env u]
    by (simp add: startWorker_unfold)
next
  case (Resolved p)
  have "u' = u \<and> vals = map rec_value (snd (snd (snd p)))"
    using assms Resolved prepare_trace [of "RegisterChallenges u' vals" env u]
      after_publish_trace [of "RegisterChallenges u' vals" env u evs p]
    by (cases "rpc_registerChallenges env u (map rec_value (snd (snd (snd p))))")
       (auto simp: startWorker_unfold)
  then show ?thesis using that Resolved by blast
qed

lemma filter_none: "\<forall>x \<in> set xs. \<not> P x \<Longrightarrow> filter P xs = []"
  by (induction xs) simp_all

lemma startWorker_publish_once:
  assumes "snd (prepare env u) = Resolved p"
  shows "filter is_publish (fst (startWorker env u evs)) =
           [RegisterChallenges u (map rec_value (snd (snd (snd p))))]"
proof -
  have 1: "filter is_publish (fst (prepare env u)) = []"
    using prepare_trace by (intro filter_none) blast
  have 2: "filter is_publish (fst (after_publish env u evs p)) = []"
    using after_publish_trace by (intro filter_none) blast
  show ?thesis using assms 1 2
    by (cases "rpc_registerChallenges env u (map rec_value (snd (snd (snd p))))")
       (simp_all add: startWorker_unfold)
qed

lemma startWorker_publish_failed:
  assumes "snd (prepare env u) = Resolved p"
    and "rpc_registerChallenges env u (map rec_value (snd (snd (snd p)))) = Inl e"
  shows "startWorker env u evs =
           (fst (prepare env u) @ [RegisterChallenges u (map rec_value (snd (snd (snd p))))],
            Rejected e)"
  using assms by (simp add: startWorker_unfold)

section \<open>Issuance\<close>

lemma prepare_issue_trace: "a \<in> set (fst (prepare env u)) \<Longrightarrow> \<not> is_issue a"
  unfolding prepare_def
  by (elim in_await_trace; (clarsimp split: prod.splits)?; (elim in_await_trace)?)
     (auto simp: initialize_def createAccount_def fetchDomains_def getChallenges_def Let_def
        all_tasks_def expected_record_trace
        elim!: in_await_trace split: sum.splits)

lemma watch_not_issue: "is_watch a \<Longrightarrow> \<not> is_issue a"
  by (cases a) simp_all

lemma finalize_not_issue: "is_finalize a \<Longrightarrow> \<not> is_issue a"
  by (cases a) simp_all

lemma after_publish_issue:
  assumes "a \<in> set (fst (after_publish env u evs (domains, order, cs, records)))" and "is_issue a"
  shows "a \<in> set (fst (issue env u domains order))"
  using assms unfolding after_publish_def
  by (auto elim!: in_await_trace
      dest: awaitAllVerified_trace finalize_all_trace watch_not_issue finalize_not_issue)

lemma startWorker_issue:
  assumes "a \<in> set (fst (startWorker env u evs))" and "is_issue a"
  obtains domains order where "rpc_fetchDomains env u = Inr domains"
    "a \<in> set (fst (issue env u domains order))"
proof (cases "snd (prepare env u)")
  case Pending
  then show ?thesis using assms prepare_issue_trace [of a env u] by (simp add: startWorker_unfold)
next
  case (Rejected e)
  then show ?thesis using assms prepare_issue_trace [of a env u] by (simp add: startWorker_unfold)
next
  case (Resolved p)
  obtain domains order cs records where p: "p = (domains, order, cs, records)" by (cases p)
  have "a \<in> set (fst (after_publish env u evs p))"
    using assms Resolved prepare_issue_trace [of a env u]
    by (cases "rpc_registerChallenges env u (map rec_value (snd (snd (snd p))))")
       (auto simp: startWorker_unfold)
  then have "a \<in> set (fst (issue env u domains order))"
    using after_publish_issue assms(2) p by blast
  moreover have "rpc_fetchDomains env u = Inr domains"
    using prepare_Resolved Resolved p by blast
  ultimately show ?thesis using that by blast
qed

lemma issue_first:
  "\<exists>tr. fst (issue env u domains order) =
     CreateCsr (case domains of [] \<Rightarrow> None | d # ds \<Rightarrow> Some d) (drop 1 domains) # tr"
  by (simp add: issue_def Let_def fst_await)

lemma issue_csr:
  "CreateCsr commonName altNames \<in> set (fst (issue env u domains order)) \<Longrightarrow>
   commonName = (case domains of [] \<Rightarrow> None | d # ds \<Rightarrow> Some d) \<and> altNames = drop 1 domains"
  unfolding issue_def Let_def
  by (erule in_await_trace; (clarsimp split: prod.splits)?; (elim in_await_trace)?; auto)

lemma issue_callback:
  assumes "VerifiedCallback request \<in> set (fst (issue env u domains order))"
  shows "\<exists>key csr cert.
           acme_createCsr env (case domains of [] \<Rightarrow> None | d # ds \<Rightarrow> Some d) (drop 1 domains) =
             Inr (key, csr) \<and>
           acme_getCertificate env order = Inr cert \<and>
           request = \<lparr> cb_uuid = u, cb_csr = base64 csr, cb_privKey = base64 key,
                        cb_certificate = base64 (Buffer_from cert) \<rparr>"
proof -
  let ?cn = "case domains of [] \<Rightarrow> None | d # ds \<Rightarrow> Some d"
  let ?alt = "drop 1 domains"
  show ?thesis
  proof (cases "acme_createCsr env ?cn ?alt")
    case (Inl e)
    then show ?thesis using assms by (simp add: issue_def Let_def)
  next
    case (Inr kc)
    obtain key csr where kc: "kc = (key, csr)" by (cases kc)
    show ?thesis
    proof (cases "acme_finalizeOrder env order csr")
      case (Inl e)
      then show ?thesis using assms Inr kc by (simp add: issue_def Let_def)
    next
      case fin: (Inr x)
      show ?thesis
      proof (cases "acme_getCertificate env order")
        case (Inl e)
        then show ?thesis using assms Inr kc fin by (simp add: issue_def Let_def)
      next
        case cert: (Inr cert)
        then show ?thesis using assms Inr kc fin by (simp add: issue_def Let_def)
      qed
    qed
  qed
qed

lemmas loop_eval = watcher_eval workflow_eval demo_events_def

section \<open>The barrier\<close>

lemma await_watchers_Nil [simp]: "await_watchers [] evs = []"
  by (cases evs) simp_all

lemma awaitAllVerified_Nil: "awaitAllVerified [] evs = ([], Resolved [])"
  by (simp add: awaitAllVerified_def watch_log_def)

lemma getChallenges_empty:
  assumes "acme_createOrder env [] = Inr order" and "acme_getAuthorizations env order = Inr []"
  shows "getChallenges env [] = ([CreateOrder [], GetAuthorizations order], Resolved (order, []))"
  using assms by (simp add: getChallenges_def)

lemma signalled_advance: "signalled w \<Longrightarrow> signalled (advance t w)"
proof (rule advance_rule [where P = signalled])
  fix x d tm
  assume "signalled x" and n: "next_timer x = Some (d, tm)"
  from n show "signalled (fire tm d x)"
    using \<open>signalled x\<close> by (cases rule: next_timer_cases) (auto simp: signalled_def)
next
  fix x
  assume "signalled x"
  then show "signalled (x\<lparr> clock := max (clock x) t \<rparr>)" by (simp add: signalled_def)
qed

lemma signalled_deliver: "signalled w \<Longrightarrow> signalled (deliver ev w)"
proof (cases ev w rule: deliver_cases)
  case idle
  assume "signalled w"
  then show ?thesis using idle by (simp add: signalled_advance)
next
  case (cname_answer res)
  assume "signalled w"
  then have "signalled (advance (fst ev) w)" by (rule signalled_advance)
  then show ?thesis using cname_answer(2) by (auto simp: signalled_def)
next
  case (txt_answer addr res)
  assume "signalled w"
  then have "signalled (advance (fst ev) w)" by (rule signalled_advance)
  then show ?thesis using txt_answer(3) by (auto simp: signalled_def)
qed

lemma signalled_initial: "signalled (waitUntilVerify r)"
  by (simp add: signalled_def)

text \<open>The loop of all watchers, watcher by watcher.\<close>

lemma length_deliver_all [simp]: "length (deliver_all ev ws) = length ws"
  by (simp add: deliver_all_def)

lemma nth_deliver_all:
  "j < length ws \<Longrightarrow> deliver_all ev ws ! j = deliver (event_for j ev) (ws ! j)"
  by (simp add: deliver_all_def nth_enumerate_eq)

lemma deliver_all_preserves:
  assumes "\<And>w ev. P w \<Longrightarrow> P (deliver ev w)" and "\<forall>w \<in> set ws. P w"
  shows "\<forall>w \<in> set (deliver_all ev ws). P w"
proof
  fix w assume "w \<in> set (deliver_all ev ws)"
  then obtain j where j: "j < length ws" and w: "w = deliver_all ev ws ! j"
    by (metis in_set_conv_nth length_deliver_all)
  have "P (ws ! j)" using assms(2) j by simp
  then have "P (deliver (event_for j ev) (ws ! j))" by (rule assms(1))
  then show "P w" using w j by (simp add: nth_deliver_all)
qed

lemma length_await_watchers [simp]: "length (await_watchers ws evs) = length ws"
  by (induction evs arbitrary: ws) simp_all

lemma await_watchers_preserves:
  assumes "\<And>w ev. P w \<Longrightarrow> P (deliver ev w)" and "\<forall>w \<in> set ws. P w"
  shows "\<forall>w \<in> set (await_watchers ws evs). P w"
  using assms(2)
proof (induction evs arbitrary: ws)
  case Nil
  then show ?case by simp
next
  case (Cons ev evs)
  have "\<forall>w \<in> set (deliver_all ev ws). P w"
    using assms(1) Cons.prems by (rule deliver_all_preserves)
  then show ?case using Cons by simp
qed

lemma await_watchers_projection:
  assumes "j < length ws"
  shows "\<exists>n \<le> length evs. await_watchers ws evs ! j = run (map (event_for j) (take n evs)) (ws ! j)"
  using assms
proof (induction evs arbitrary: ws)
  case Nil
  then show ?case by simp
next
  case (Cons ev evs)
  show ?case
  proof (cases "promise_all (map promise ws) = Pending")
    case False
    then have "await_watchers ws (ev # evs) ! j = run (map (event_for j) (take 0 (ev # evs))) (ws ! j)"
      by simp
    then show ?thesis by blast
  next
    case True
    have "j < length (deliver_all ev ws)" using Cons.prems by simp
    from Cons.IH [OF this] obtain n where n: "n \<le> length evs"
      and eq: "await_watchers (deliver_all ev ws) evs ! j =
                 run (map (event_for j) (take n evs)) (deliver_all ev ws ! j)"
      by blast
    have "await_watchers ws (ev # evs) ! j =
            run (map (event_for j) (take (Suc n) (ev # evs))) (ws ! j)"
      using True eq Cons.prems by (simp add: nth_deliver_all)
    moreover have "Suc n \<le> length (ev # evs)" using n by simp
    ultimately show ?thesis by blast
  qed
qed

lemma promise_all_all_resolved:
  assumes "promise_all (map promise ws) = Resolved us"
  shows "length us = length ws \<and> (\<forall>w \<in> set ws. promise w = Resolved ())"
proof -
  from assms have m: "map promise ws = map Resolved us" by (rule promise_all_ResolvedD)
  then have len: "length ws = length us" by (rule map_eq_imp_length_eq)
  have "promise w = Resolved ()" if "w \<in> set ws" for w
  proof -
    from that have "promise w \<in> set (map Resolved us)" using m by (metis image_eqI set_map)
    then show ?thesis by auto
  qed
  then show ?thesis using len by simp
qed

lemma promise_all_Rejected: "promise_all ps = Rejected e \<Longrightarrow> Rejected e \<in> set ps"
  by (induction ps) (auto split: promise.splits)

lemma watch_log_nth:
  assumes "i < length ws" and "(t, x) \<in> set (wlog (ws ! i))"
  shows "Watch i t x \<in> set (watch_log ws)"
proof -
  have "(i, ws ! i) \<in> set (enumerate 0 ws)" using assms(1) by (simp add: in_set_enumerate_eq)
  then show ?thesis using assms(2) unfolding watch_log_def by force
qed

lemma awaitAllVerified_Resolved:
  assumes "snd (awaitAllVerified records evs) = Resolved us"
  shows "length us = length records"
    and "\<forall>i < length records. \<exists>n \<le> length evs.
           promise (run (map (event_for i) (take n evs)) (waitUntilVerify (records ! i))) = Resolved ()"
    and "\<forall>i < length records. \<exists>t. Watch i t Signal \<in> set (fst (awaitAllVerified records evs))"
proof -
  let ?ws = "await_watchers (map waitUntilVerify records) evs"
  from assms have all: "promise_all (map promise ?ws) = Resolved us"
    by (simp add: awaitAllVerified_def Let_def)
  from promise_all_all_resolved [OF all]
  have len: "length us = length ?ws" and res: "\<forall>w \<in> set ?ws. promise w = Resolved ()" by simp_all
  show "length us = length records" using len by simp
  have sig: "\<forall>w \<in> set ?ws. signalled w"
    by (rule await_watchers_preserves) (auto simp: signalled_deliver signalled_initial)
  show "\<forall>i < length records. \<exists>n \<le> length evs.
           promise (run (map (event_for i) (take n evs)) (waitUntilVerify (records ! i))) = Resolved ()"
  proof (intro allI impI)
    fix i assume i: "i < length records"
    then have "i < length (map waitUntilVerify records)" by simp
    from await_watchers_projection [OF this, of evs] obtain n where n: "n \<le> length evs"
      and eq: "?ws ! i = run (map (event_for i) (take n evs)) (waitUntilVerify (records ! i))"
      using i by auto
    have "promise (?ws ! i) = Resolved ()" using res i by simp
    then show "\<exists>n \<le> length evs.
           promise (run (map (event_for i) (take n evs)) (waitUntilVerify (records ! i))) = Resolved ()"
      using n eq by auto
  qed
  show "\<forall>i < length records. \<exists>t. Watch i t Signal \<in> set (fst (awaitAllVerified records evs))"
  proof (intro allI impI)
    fix i assume i: "i < length records"
    then have mem: "?ws ! i \<in> set ?ws" by simp
    then have "Signal \<in> snd ` set (wlog (?ws ! i))" using res sig by (auto simp: signalled_def)
    then obtain t where "(t, Signal) \<in> set (wlog (?ws ! i))" by force
    then have "Watch i t Signal \<in> set (watch_log ?ws)" using i by (intro watch_log_nth) simp_all
    then show "\<exists>t. Watch i t Signal \<in> set (fst (awaitAllVerified records evs))"
      by (auto simp: awaitAllVerified_def Let_def)
  qed
qed

lemma awaitAllVerified_not_rejected: "snd (awaitAllVerified records evs) \<noteq> Rejected e"
proof
  let ?ws = "await_watchers (map waitUntilVerify records) evs"
  assume "snd (awaitAllVerified records evs) = Rejected e"
  then have "promise_all (map promise ?ws) = Rejected e" by (simp add: awaitAllVerified_def Let_def)
  then have "Rejected e \<in> set (map promise ?ws)" by (rule promise_all_Rejected)
  then obtain w where w: "w \<in> set ?ws" "promise w = Rejected e" by auto
  have "\<forall>w \<in> set ?ws. watcher_ok w"
    by (rule await_watchers_preserves) (auto simp: watcher_ok_deliver watcher_ok_initial)
  then show False using w watcher_ok_promise by fastforce
qed

lemma awaitAllVerified_Pending:
  assumes "i < length records"
    and "promise (run (map (event_for i) evs) (waitUntilVerify (records ! i))) \<noteq> Resolved ()"
  shows "snd (awaitAllVerified records evs) = Pending"
proof (cases "snd (awaitAllVerified records evs)")
  case Pending
  then show ?thesis .
next
  case (Rejected e)
  then show ?thesis using awaitAllVerified_not_rejected by blast
next
  case (Resolved us)
  from awaitAllVerified_Resolved(2) [OF Resolved] assms(1)
  obtain n where n: "n \<le> length evs"
    and r: "promise (run (map (event_for i) (take n evs)) (waitUntilVerify (records ! i))) = Resolved ()"
    by blast
  have "map (event_for i) evs = map (event_for i) (take n evs) @ map (event_for i) (drop n evs)"
    by (metis append_take_drop_id map_append)
  then have "promise (run (map (event_for i) evs) (waitUntilVerify (records ! i))) = Resolved ()"
    using r by (simp add: run_append run_resolved)
  then show ?thesis using assms(2) by simp
qed

lemma after_publish_finalize:
  assumes "a \<in> set (fst (after_publish env u evs (domains, order, cs, records)))"
    and "is_finalize a"
  obtains us tr where "snd (awaitAllVerified records evs) = Resolved us"
    "fst (after_publish env u evs (domains, order, cs, records)) =
       fst (awaitAllVerified records evs) @ tr"
proof (cases "snd (awaitAllVerified records evs)")
  case Pending
  then have "fst (after_publish env u evs (domains, order, cs, records)) =
      fst (awaitAllVerified records evs)"
    by (simp add: after_publish_def fst_await)
  then show ?thesis using assms awaitAllVerified_trace is_kinds_disjoint(1) by metis
next
  case (Rejected e)
  then show ?thesis using awaitAllVerified_not_rejected by blast
next
  case (Resolved us)
  then have "\<exists>tr. fst (after_publish env u evs (domains, order, cs, records)) =
      fst (awaitAllVerified records evs) @ tr"
    by (simp add: after_publish_def fst_await)
  then show ?thesis using that Resolved by blast
qed

lemma startWorker_finalize:
  assumes "a \<in> set (fst (startWorker env u evs))" and "is_finalize a"
  obtains records us tr where
    "snd (awaitAllVerified records evs) = Resolved us"
    "fst (startWorker env u evs) =
       fst (prepare env u) @ RegisterChallenges u (map rec_value records) #
       fst (awaitAllVerified records evs) @ tr"
proof (cases "snd (prepare env u)")
  case Pending
  then show ?thesis using assms prepare_trace [of a env u] by (simp add: startWorker_unfold)
next
  case (Rejected e)
  then show ?thesis using assms prepare_trace [of a env u] by (simp add: startWorker_unfold)
next
  case (Resolved p)
  obtain domains order cs records where p: "p = (domains, order, cs, records)" by (cases p)
  show ?thesis
  proof (cases "rpc_registerChallenges env u (map rec_value records)")
    case (Inl e)
    then show ?thesis using assms Resolved p prepare_trace [of a env u]
      by (auto simp: startWorker_unfold)
  next
    case (Inr ok)
    then have tr: "fst (startWorker env u evs) =
        fst (prepare env u) @ RegisterChallenges u (map rec_value records) #
        fst (after_publish env u evs p)"
      using Resolved p by (simp add: startWorker_unfold)
    then have "a \<in> set (fst (after_publish env u evs (domains, order, cs, records)))"
      using assms prepare_trace [of a env u] p by auto
    from this assms(2) obtain us tr' where "snd (awaitAllVerified records evs) = Resolved us"
      "fst (after_publish env u evs (domains, order, cs, records)) =
         fst (awaitAllVerified records evs) @ tr'"
      by (rule after_publish_finalize)
    then show ?thesis using that tr p by simp
  qed
qed

section \<open>The claims\<close>

text \<open>
  C1. The watcher never signals completion before the expected value has been observed:
  if its promise is fulfilled after a history of events, the history shows the value in the
  flattened TXT record sets of a CNAME target at some time \<open>t0\<close>, and at least 15 seconds
  have passed since. And once the value is observed (a successful TXT answer for an
  outstanding query at a CNAME target contains it), the interval is cleared and stays
  cleared, no further CNAME query is issued, and the promise is fulfilled as soon as the
  clock reaches 15 seconds after the observation; when this observation is the first, the
  promise is still pending at every earlier time.
\<close>

theorem waitUntilVerify_signals_after_observation:
  "let w0 = run evs0 (waitUntilVerify record);
       w = run evs (waitUntilVerify record);
       w1 = deliver (t, Some (TxtReply addr (Inr result))) w;
       w2 = run evs' w1
   in (promise w0 = Resolved () \<longrightarrow>
         (\<exists>t0 \<in> set (observations (rec_value record) [] 0 evs0). t0 + 15 * 1000 \<le> clock w0)) \<and>
      (addr \<in> set (txt_inflight w) \<and> rec_value record \<in> set (concat result) \<longrightarrow>
         intervalId w1 = None \<and> intervalId w2 = None \<and>
         cname_queries w2 = cname_queries w1 \<and>
         (clock w1 + 15 * 1000 \<le> clock w2 \<longrightarrow> promise w2 = Resolved ()) \<and>
         (promise w = Pending \<and> timeouts w = [] \<and> clock w2 < clock w1 + 15 * 1000 \<longrightarrow>
            promise w2 = Pending))"
proof -
  let ?w = "run evs (waitUntilVerify record)"
  let ?w1 = "deliver (t, Some (TxtReply addr (Inr result))) ?w"
  let ?w2 = "run evs' ?w1"
  have safety: "promise (run evs0 (waitUntilVerify record)) = Resolved () \<longrightarrow>
      (\<exists>t0 \<in> set (observations (rec_value record) [] 0 evs0).
         t0 + 15 * 1000 \<le> clock (run evs0 (waitUntilVerify record)))"
    using resolved_after_observation by blast
  have ok: "watcher_ok ?w" by (rule watcher_ok_reachable)
  have after: "intervalId ?w1 = None \<and> intervalId ?w2 = None \<and>
         cname_queries ?w2 = cname_queries ?w1 \<and>
         (clock ?w1 + 15 * 1000 \<le> clock ?w2 \<longrightarrow> promise ?w2 = Resolved ()) \<and>
         (promise ?w = Pending \<and> timeouts ?w = [] \<and> clock ?w2 < clock ?w1 + 15 * 1000 \<longrightarrow>
            promise ?w2 = Pending)"
    if a: "addr \<in> set (txt_inflight ?w)" and v: "rec_value record \<in> set (concat result)"
  proof -
    have v': "w_v ?w \<in> set (concat result)" using v by simp
    note w1 = deliver_observation [OF a v', of t]
    have i1: "intervalId ?w1 = None" by (simp add: w1)
    then have i2: "intervalId ?w2 = None" by (rule run_interval_cleared)
    have q: "cname_queries ?w2 = cname_queries ?w1" using i1 by (rule run_cname_queries)
    have ok1: "watcher_ok ?w1" using ok by (rule watcher_ok_deliver)
    have due: "clock ?w1 + 15 * 1000 \<in> set (timeouts ?w1)" by (simp add: w1)
    have live: "promise ?w2 = Resolved ()" if "clock ?w1 + 15 * 1000 \<le> clock ?w2"
      using run_timeout_fires [OF ok1 due that] .
    have first: "promise ?w2 = Pending"
      if "promise ?w = Pending" "timeouts ?w = []" "clock ?w2 < clock ?w1 + 15 * 1000"
      using pending_until_settled [OF ok that(1,2) a v', of evs' t] that(3) by simp
    show ?thesis using i1 i2 q live first by blast
  qed
  show ?thesis unfolding Let_def using safety after by blast
qed

theorem waitUntilVerify_signals_after_observation_witness:
  "promise (run [(5040, Some (CnameReply (Inr [''validation.example.net'']))),
                 (5090, Some (TxtReply ''validation.example.net'' (Inr [[''other''], [''token'']]))),
                 (20090, None)] (waitUntilVerify demo_record)) = Resolved () \<and>
   observations ''token'' [] 0
     [(5040, Some (CnameReply (Inr [''validation.example.net'']))),
      (5090, Some (TxtReply ''validation.example.net'' (Inr [[''other''], [''token'']]))),
      (20090, None)] = [5090] \<and>
   ''validation.example.net'' \<in> set (txt_inflight
      (run [(5040, Some (CnameReply (Inr [''validation.example.net''])))]
         (waitUntilVerify demo_record))) \<and>
   promise (run [(5040, Some (CnameReply (Inr [''validation.example.net''])))]
      (waitUntilVerify demo_record)) = Pending \<and>
   promise (run [(20089, None)]
      (deliver (5090, Some (TxtReply ''validation.example.net'' (Inr [[''other''], [''token'']])))
         (run [(5040, Some (CnameReply (Inr [''validation.example.net''])))]
            (waitUntilVerify demo_record)))) = Pending \<and>
   promise (run [(20090, None)]
      (deliver (5090, Some (TxtReply ''validation.example.net'' (Inr [[''other''], [''token'']])))
         (run [(5040, Some (CnameReply (Inr [''validation.example.net''])))]
            (waitUntilVerify demo_record)))) = Resolved ()"
  using waitUntilVerify_signals_after_observation
    [of "[(5040, Some (CnameReply (Inr [''validation.example.net'']))),
          (5090, Some (TxtReply ''validation.example.net'' (Inr [[''other''], [''token'']]))),
          (20090, None)]"
        demo_record
        "[(5040, Some (CnameReply (Inr [''validation.example.net''])))]"
        5090 "''validation.example.net''" "[[''other''], [''token'']]" "[(20090, None)]"]
    waitUntilVerify_signals_after_observation
    [of "[]" demo_record
        "[(5040, Some (CnameReply (Inr [''validation.example.net''])))]"
        5090 "''validation.example.net''" "[[''other''], [''token'']]" "[(20089, None)]"]
  by (simp add: watcher_eval demo_record_def)


text \<open>
  C6. A failing CNAME answer and a failing TXT answer are never surfaced. After either, the
  promise, the interval, the pending timeouts, the clock and the log of the watcher are
  what they would be had only time passed; the failing TXT answer removes only its own
  query from the outstanding ones, so the other CNAME targets of the tick are still
  handled. The promise is not rejected. While the interval is armed, the next CNAME
  query for the record's key is issued at the next due time \<open>d\<close> of the interval, a multiple
  of 5 seconds at most 5 seconds ahead. And polling does continue: a failing answer adds
  no observation to the history, and after every history that shows no observation of the
  expected value (in particular after the failing answer, and after any number of further
  failures) the interval is armed and the next CNAME query is issued at its next due time.
\<close>

theorem dns_failures_are_skipped:
  "let w = run evs (waitUntilVerify record);
       idle = deliver (t, None) w;
       w1 = deliver (t, Some (CnameReply (Inl e))) w;
       w2 = deliver (t, Some (TxtReply addr (Inl e))) w
   in (promise w1 = promise idle \<and> intervalId w1 = intervalId idle \<and>
       timeouts w1 = timeouts idle \<and> wlog w1 = wlog idle \<and> clock w1 = clock idle \<and>
       txt_inflight w1 = txt_inflight idle) \<and>
      (promise w2 = promise idle \<and> intervalId w2 = intervalId idle \<and>
       timeouts w2 = timeouts idle \<and> wlog w2 = wlog idle \<and> clock w2 = clock idle \<and>
       cname_inflight w2 = cname_inflight idle \<and>
       txt_inflight w2 = remove1 addr (txt_inflight idle)) \<and>
      (promise idle = Pending \<or> promise idle = Resolved ()) \<and>
      (\<forall>d. intervalId idle = Some d \<longrightarrow>
         clock w1 < d \<and> d \<le> clock w1 + 5 * 1000 \<and> 5 * 1000 dvd d \<and>
         wlog (deliver (d, None) w1) = wlog w1 @ [(d, Query (ResolveCname (rec_key record)))] \<and>
         wlog (deliver (d, None) w2) = wlog w2 @ [(d, Query (ResolveCname (rec_key record)))]) \<and>
      (observations (rec_value record) [] 0 evs = [] \<longrightarrow>
         observations (rec_value record) [] 0 (evs @ [(t, Some (CnameReply (Inl e)))]) = [] \<and>
         observations (rec_value record) [] 0 (evs @ [(t, Some (TxtReply addr (Inl e)))]) = [] \<and>
         (\<exists>d. intervalId w1 = Some d \<and> intervalId w2 = Some d \<and>
            clock w1 < d \<and> d \<le> clock w1 + 5 * 1000 \<and> 5 * 1000 dvd d \<and>
            wlog (deliver (d, None) w1) = wlog w1 @ [(d, Query (ResolveCname (rec_key record)))] \<and>
            wlog (deliver (d, None) w2) = wlog w2 @ [(d, Query (ResolveCname (rec_key record)))])) \<and>
      (observations (rec_value record) [] 0 later = [] \<longrightarrow>
         (\<exists>d. intervalId (run later (waitUntilVerify record)) = Some d \<and>
            clock (run later (waitUntilVerify record)) < d \<and>
            d \<le> clock (run later (waitUntilVerify record)) + 5 * 1000 \<and> 5 * 1000 dvd d \<and>
            wlog (deliver (d, None) (run later (waitUntilVerify record))) =
              wlog (run later (waitUntilVerify record)) @
                [(d, Query (ResolveCname (rec_key record)))]))"
proof -
  let ?w = "run evs (waitUntilVerify record)"
  let ?idle = "deliver (t, None) ?w"
  let ?w1 = "deliver (t, Some (CnameReply (Inl e))) ?w"
  let ?w2 = "deliver (t, Some (TxtReply addr (Inl e))) ?w"
  let ?v = "rec_value record"
  have ok: "watcher_ok ?w" by (rule watcher_ok_reachable)
  have 1: "promise ?w1 = promise ?idle \<and> intervalId ?w1 = intervalId ?idle \<and>
       timeouts ?w1 = timeouts ?idle \<and> wlog ?w1 = wlog ?idle \<and> clock ?w1 = clock ?idle \<and>
       txt_inflight ?w1 = txt_inflight ?idle"
    by (simp add: deliver_cname_error deliver_idle)
  have 2: "promise ?w2 = promise ?idle \<and> intervalId ?w2 = intervalId ?idle \<and>
       timeouts ?w2 = timeouts ?idle \<and> wlog ?w2 = wlog ?idle \<and> clock ?w2 = clock ?idle \<and>
       cname_inflight ?w2 = cname_inflight ?idle \<and>
       txt_inflight ?w2 = remove1 addr (txt_inflight ?idle)"
    by (simp add: deliver_txt_error deliver_idle)
  have 3: "promise ?idle = Pending \<or> promise ?idle = Resolved ()"
    using ok by (intro watcher_ok_promise watcher_ok_deliver)
  have 4: "clock ?w1 < d \<and> d \<le> clock ?w1 + 5 * 1000 \<and> 5 * 1000 dvd d \<and>
         wlog (deliver (d, None) ?w1) = wlog ?w1 @ [(d, Query (ResolveCname (rec_key record)))] \<and>
         wlog (deliver (d, None) ?w2) = wlog ?w2 @ [(d, Query (ResolveCname (rec_key record)))]"
    if "intervalId ?idle = Some d" for d
  proof -
    have i1: "intervalId ?w1 = Some d" and i2: "intervalId ?w2 = Some d" using that 1 2 by simp_all
    have ok1: "watcher_ok ?w1" and ok2: "watcher_ok ?w2" using ok by (simp_all add: watcher_ok_deliver)
    have k1: "w_k ?w1 = rec_key record" and k2: "w_k ?w2 = rec_key record" by simp_all
    show ?thesis using next_poll [OF ok1 i1 k1] next_poll [OF ok2 i2 k2] by blast
  qed
  have 5: "observations ?v [] 0 (evs @ [(t, Some (CnameReply (Inl e)))]) = [] \<and>
         observations ?v [] 0 (evs @ [(t, Some (TxtReply addr (Inl e)))]) = [] \<and>
         (\<exists>d. intervalId ?w1 = Some d \<and> intervalId ?w2 = Some d \<and>
            clock ?w1 < d \<and> d \<le> clock ?w1 + 5 * 1000 \<and> 5 * 1000 dvd d \<and>
            wlog (deliver (d, None) ?w1) = wlog ?w1 @ [(d, Query (ResolveCname (rec_key record)))] \<and>
            wlog (deliver (d, None) ?w2) = wlog ?w2 @ [(d, Query (ResolveCname (rec_key record)))])"
    if no: "observations ?v [] 0 evs = []"
  proof -
    have a: "observations ?v [] 0 (evs @ [(t, Some (CnameReply (Inl e)))]) = []"
      and b: "observations ?v [] 0 (evs @ [(t, Some (TxtReply addr (Inl e)))]) = []"
      using no by (simp_all add: observations_cname_failure observations_txt_failure)
    from armed_until_observed [OF a] obtain d where "intervalId ?w1 = Some d"
      by (auto simp: run_append)
    then have "intervalId ?idle = Some d" using 1 by simp
    then show ?thesis using 4 [of d] 1 2 a b by auto
  qed
  have 6: "\<exists>d. intervalId (run later (waitUntilVerify record)) = Some d \<and>
            clock (run later (waitUntilVerify record)) < d \<and>
            d \<le> clock (run later (waitUntilVerify record)) + 5 * 1000 \<and> 5 * 1000 dvd d \<and>
            wlog (deliver (d, None) (run later (waitUntilVerify record))) =
              wlog (run later (waitUntilVerify record)) @
                [(d, Query (ResolveCname (rec_key record)))]"
    if "observations ?v [] 0 later = []"
    using that by (rule polling_continues)
  show ?thesis unfolding Let_def using 1 2 3 4 5 6 by blast
qed


theorem dns_failures_are_skipped_witness:
  "observations (rec_value demo_record) [] 0
     [(5040, Some (CnameReply (Inr [''validation.example.net''])))] = [] \<and>
   cname_inflight (deliver (10050, None)
      (run [(5040, Some (CnameReply (Inr [''validation.example.net''])))]
         (waitUntilVerify demo_record))) = 1 \<and>
   txt_inflight (deliver (10050, None)
      (run [(5040, Some (CnameReply (Inr [''validation.example.net''])))]
         (waitUntilVerify demo_record))) = [''validation.example.net''] \<and>
   intervalId (deliver (10050, None)
      (run [(5040, Some (CnameReply (Inr [''validation.example.net''])))]
         (waitUntilVerify demo_record))) = Some 15000 \<and>
   cname_inflight (deliver (10050, Some (CnameReply (Inl (DnsError ''ESERVFAIL''))))
      (run [(5040, Some (CnameReply (Inr [''validation.example.net''])))]
         (waitUntilVerify demo_record))) = 0 \<and>
   promise (deliver (10050, Some (CnameReply (Inl (DnsError ''ESERVFAIL''))))
      (run [(5040, Some (CnameReply (Inr [''validation.example.net''])))]
         (waitUntilVerify demo_record))) = Pending \<and>
   wlog (deliver (15000, None) (deliver (10050, Some (CnameReply (Inl (DnsError ''ESERVFAIL''))))
      (run [(5040, Some (CnameReply (Inr [''validation.example.net''])))] (waitUntilVerify demo_record))))
     = [(5000, Query (ResolveCname ''_acme-challenge.example.com'')),
        (5040, Query (ResolveTxt ''validation.example.net'')),
        (10000, Query (ResolveCname ''_acme-challenge.example.com'')),
        (15000, Query (ResolveCname ''_acme-challenge.example.com''))] \<and>
   txt_inflight (deliver (10050, Some (TxtReply ''validation.example.net'' (Inl (DnsError ''ESERVFAIL''))))
      (run [(5040, Some (CnameReply (Inr [''validation.example.net''])))]
         (waitUntilVerify demo_record))) = [] \<and>
   promise (deliver (10050, Some (TxtReply ''validation.example.net'' (Inl (DnsError ''ESERVFAIL''))))
      (run [(5040, Some (CnameReply (Inr [''validation.example.net''])))]
         (waitUntilVerify demo_record))) = Pending \<and>
   wlog (deliver (15000, None)
      (deliver (10050, Some (TxtReply ''validation.example.net'' (Inl (DnsError ''ESERVFAIL''))))
      (run [(5040, Some (CnameReply (Inr [''validation.example.net''])))] (waitUntilVerify demo_record))))
     = [(5000, Query (ResolveCname ''_acme-challenge.example.com'')),
        (5040, Query (ResolveTxt ''validation.example.net'')),
        (10000, Query (ResolveCname ''_acme-challenge.example.com'')),
        (15000, Query (ResolveCname ''_acme-challenge.example.com''))] \<and>
   observations (rec_value demo_record) [] 0
     [(5040, Some (CnameReply (Inl (DnsError ''ENOTFOUND'')))),
      (10020, Some (CnameReply (Inl (DnsError ''ETIMEOUT'')))),
      (15030, Some (CnameReply (Inr [''validation.example.net'']))),
      (15060, Some (TxtReply ''validation.example.net'' (Inl (DnsError ''ESERVFAIL'')))),
      (27000, None)] = [] \<and>
   intervalId (run
     [(5040, Some (CnameReply (Inl (DnsError ''ENOTFOUND'')))),
      (10020, Some (CnameReply (Inl (DnsError ''ETIMEOUT'')))),
      (15030, Some (CnameReply (Inr [''validation.example.net'']))),
      (15060, Some (TxtReply ''validation.example.net'' (Inl (DnsError ''ESERVFAIL'')))),
      (27000, None)] (waitUntilVerify demo_record)) = Some 30000 \<and>
   wlog (deliver (30000, None) (run
     [(5040, Some (CnameReply (Inl (DnsError ''ENOTFOUND'')))),
      (10020, Some (CnameReply (Inl (DnsError ''ETIMEOUT'')))),
      (15030, Some (CnameReply (Inr [''validation.example.net'']))),
      (15060, Some (TxtReply ''validation.example.net'' (Inl (DnsError ''ESERVFAIL'')))),
      (27000, None)] (waitUntilVerify demo_record)))
     = [(5000, Query (ResolveCname ''_acme-challenge.example.com'')),
        (10000, Query (ResolveCname ''_acme-challenge.example.com'')),
        (15000, Query (ResolveCname ''_acme-challenge.example.com'')),
        (15030, Query (ResolveTxt ''validation.example.net'')),
        (20000, Query (ResolveCname ''_acme-challenge.example.com'')),
        (25000, Query (ResolveCname ''_acme-challenge.example.com'')),
        (30000, Query (ResolveCname ''_acme-challenge.example.com''))]"
  using dns_failures_are_skipped
    [of "[(5040, Some (CnameReply (Inr [''validation.example.net''])))]" demo_record 10050
        "DnsError ''ESERVFAIL''" "''validation.example.net''"
        "[(5040, Some (CnameReply (Inl (DnsError ''ENOTFOUND'')))),
          (10020, Some (CnameReply (Inl (DnsError ''ETIMEOUT'')))),
          (15030, Some (CnameReply (Inr [''validation.example.net'']))),
          (15060, Some (TxtReply ''validation.example.net'' (Inl (DnsError ''ESERVFAIL'')))),
          (27000, None)]"]
  by (simp add: watcher_eval demo_record_def)

text \<open>
  C9. Whatever the DNS answers are and in whatever order they arrive, the promise returned
  by \<^verbatim>\<open>waitUntilVerify\<close> is never rejected: after every history of events it is either
  still pending, or fulfilled, and then the history shows the expected value at a CNAME
  target.
\<close>

theorem waitUntilVerify_never_rejects:
  "promise (run evs (waitUntilVerify record)) = Pending \<or>
   promise (run evs (waitUntilVerify record)) = Resolved () \<and>
   observations (rec_value record) [] 0 evs \<noteq> []"
proof (cases "promise (run evs (waitUntilVerify record)) = Resolved ()")
  case True
  then show ?thesis using resolved_after_observation [of evs "record"] by auto
next
  case False
  then show ?thesis using watcher_ok_promise [OF watcher_ok_reachable, of evs "record"] by simp
qed

theorem waitUntilVerify_never_rejects_witness:
  "promise (run [(5040, Some (CnameReply (Inl (DnsError ''ENOTFOUND'')))), (60000, None)]
      (waitUntilVerify demo_record)) = Pending \<and>
   promise (run [(5040, Some (CnameReply (Inr [''validation.example.net'']))),
                 (5090, Some (TxtReply ''validation.example.net'' (Inr [[''token'']]))),
                 (20090, None)] (waitUntilVerify demo_record)) = Resolved () \<and>
   observations (rec_value demo_record) [] 0
     [(5040, Some (CnameReply (Inr [''validation.example.net'']))),
      (5090, Some (TxtReply ''validation.example.net'' (Inr [[''token'']]))),
      (20090, None)] \<noteq> []"
  using waitUntilVerify_never_rejects
    [of "[(5040, Some (CnameReply (Inr [''validation.example.net'']))),
          (5090, Some (TxtReply ''validation.example.net'' (Inr [[''token'']]))),
          (20090, None)]" demo_record]
    waitUntilVerify_never_rejects
    [of "[(5040, Some (CnameReply (Inl (DnsError ''ENOTFOUND'')))), (60000, None)]" demo_record]
  by (simp add: watcher_eval demo_record_def)

text \<open>
  C8. If the \<^verbatim>\<open>fetchDomains\<close> RPC returns an error, \<^verbatim>\<open>startWorker\<close> is rejected and its
  trace contains no call of \<^verbatim>\<open>registerChallenges\<close>, whatever the other collaborators answer
  and whatever events follow. When the steps before it succeed, the trace ends with the
  \<^verbatim>\<open>fetchDomains\<close> call and the rejection is the error of the RPC.
\<close>

theorem fetchDomains_error_prevents_publication:
  assumes "rpc_fetchDomains env workerUuid = Inl e"
  shows "(\<forall>a \<in> set (fst (startWorker env workerUuid evs)). \<not> is_publish a) \<and>
         (\<exists>e'. snd (startWorker env workerUuid evs) = Rejected e') \<and>
         (\<forall>k email. acme_createPrivateKey env = Inr k \<and>
            rpc_registerClient env workerUuid = Inr email \<and>
            acme_createAccount env [''mailto:'' @ email] = Inr () \<longrightarrow>
            startWorker env workerUuid evs =
              ([CreatePrivateKey, RegisterClient workerUuid,
                CreateAccount [''mailto:'' @ email], FetchDomains workerUuid], Rejected e))"
proof -
  from prepare_fetch_failed [OF assms] obtain e' where e': "snd (prepare env workerUuid) = Rejected e'"
    by blast
  have 1: "\<forall>a \<in> set (fst (startWorker env workerUuid evs)). \<not> is_publish a"
    using e' by (rule not_prepared_no_publish)
  have 2: "\<exists>e'. snd (startWorker env workerUuid evs) = Rejected e'"
    using startWorker_not_prepared [OF e'] by simp
  have 3: "startWorker env workerUuid evs =
              ([CreatePrivateKey, RegisterClient workerUuid,
                CreateAccount [''mailto:'' @ email], FetchDomains workerUuid], Rejected e)"
    if "acme_createPrivateKey env = Inr k" "rpc_registerClient env workerUuid = Inr email"
       "acme_createAccount env [''mailto:'' @ email] = Inr ()" for k email
    using prepare_fetch_failed_exact [OF assms that] startWorker_not_prepared [of env workerUuid e evs]
    by simp
  show ?thesis using 1 2 3 by blast
qed

theorem fetchDomains_error_prevents_publication_witness:
  "rpc_fetchDomains (demo_env\<lparr> rpc_fetchDomains := (\<lambda>u. Inl (RpcError ''UNAVAILABLE'')) \<rparr>)
     (Some ''worker-1'') = Inl (RpcError ''UNAVAILABLE'') \<and>
   startWorker (demo_env\<lparr> rpc_fetchDomains := (\<lambda>u. Inl (RpcError ''UNAVAILABLE'')) \<rparr>)
     (Some ''worker-1'') [(5000, None)] =
     ([CreatePrivateKey, RegisterClient (Some ''worker-1''),
       CreateAccount [''mailto:ops@example.com''], FetchDomains (Some ''worker-1'')],
      Rejected (RpcError ''UNAVAILABLE''))"
  using fetchDomains_error_prevents_publication
    [of "demo_env\<lparr> rpc_fetchDomains := (\<lambda>u. Inl (RpcError ''UNAVAILABLE'')) \<rparr>"
        "Some ''worker-1''" "RpcError ''UNAVAILABLE''" "[(5000, None)]"]
  by (simp add: workflow_eval del: await_Resolved)




text \<open>
  C4. Computing the expected records (lines 160 to 165) succeeds when the key authorization
  of every challenge is obtained, and whenever it succeeds it returns exactly one record
  per challenge, in the order of the challenge list: the key of record number \<open>i\<close> is
  \<^verbatim>\<open>_acme-challenge.\<close> followed by the domain identifier of the authorization of challenge
  number \<open>i\<close>, and its value is the key authorization of that challenge. When the ACME
  client returns one authorization per requested domain, in order, this is one record per
  domain with key \<^verbatim>\<open>_acme-challenge.\<close> followed by the domain. This holds for domain sets
  of every size, so in particular for those of size at least 1.
\<close>

theorem expected_records_follow_challenges:
  "((\<forall>c \<in> set challenges. \<exists>ka. acme_getChallengeKeyAuthorization env (sel_challenge c) = Inr ka) \<longrightarrow>
      (\<exists>records. snd (all_tasks (map (expected_record env) challenges)) = Resolved records)) \<and>
   (snd (all_tasks (map (expected_record env) challenges)) = Resolved records \<longrightarrow>
      length records = length challenges \<and>
      (\<forall>i < length challenges.
         rec_key (records ! i) =
           ''_acme-challenge.'' @ id_value (auth_identifier (sel_auth (challenges ! i))) \<and>
         acme_getChallengeKeyAuthorization env (sel_challenge (challenges ! i)) =
           Inr (rec_value (records ! i))) \<and>
      (snd (getChallenges env domains) = Resolved (order, challenges) \<and>
       acme_getAuthorizations env order = Inr authorizations \<and>
       map auth_identifier authorizations = map (\<lambda>d. \<lparr>id_type = ''dns'', id_value = d\<rparr>) domains \<longrightarrow>
         length records = length domains \<and>
         map rec_key records = map (\<lambda>d. ''_acme-challenge.'' @ d) domains))"
proof (intro conjI impI)
  assume "\<forall>c \<in> set challenges. \<exists>ka. acme_getChallengeKeyAuthorization env (sel_challenge c) = Inr ka"
  then show "\<exists>records. snd (all_tasks (map (expected_record env) challenges)) = Resolved records"
    by (rule expected_records_exist)
next
  assume r: "snd (all_tasks (map (expected_record env) challenges)) = Resolved records"
  then show len: "length records = length challenges"
    and each: "\<forall>i < length challenges.
         rec_key (records ! i) =
           ''_acme-challenge.'' @ id_value (auth_identifier (sel_auth (challenges ! i))) \<and>
         acme_getChallengeKeyAuthorization env (sel_challenge (challenges ! i)) =
           Inr (rec_value (records ! i))"
    unfolding expected_records_Resolved by simp_all
  assume g: "snd (getChallenges env domains) = Resolved (order, challenges) \<and>
       acme_getAuthorizations env order = Inr authorizations \<and>
       map auth_identifier authorizations = map (\<lambda>d. \<lparr>id_type = ''dns'', id_value = d\<rparr>) domains"
  then obtain auths where "acme_getAuthorizations env order = Inr auths"
    and m: "map_throwing select_dns01 auths = Inr challenges"
    using getChallenges_Resolved by blast
  with g have auths: "auths = authorizations" by simp
  from map_throwing_Inr [OF m] have len2: "length challenges = length authorizations"
    and sel: "\<forall>i < length authorizations. select_dns01 (authorizations ! i) = Inr (challenges ! i)"
    using auths by simp_all
  have len3: "length authorizations = length domains"
    using g map_eq_imp_length_eq by blast
  show "length records = length domains" using len len2 len3 by simp
  show "map rec_key records = map (\<lambda>d. ''_acme-challenge.'' @ d) domains"
  proof (rule nth_equalityI)
    show "length (map rec_key records) = length (map (\<lambda>d. ''_acme-challenge.'' @ d) domains)"
      using len len2 len3 by simp
  next
    fix i assume "i < length (map rec_key records)"
    then have i: "i < length domains" "i < length authorizations" "i < length challenges"
      "i < length records"
      using len len2 len3 by simp_all
    have "sel_auth (challenges ! i) = authorizations ! i"
      using sel i select_dns01_Inr by blast
    moreover have "auth_identifier (authorizations ! i) = \<lparr>id_type = ''dns'', id_value = domains ! i\<rparr>"
      using g i by (metis nth_map)
    ultimately have "rec_key (records ! i) = ''_acme-challenge.'' @ domains ! i"
      using each i by simp
    then show "map rec_key records ! i = map (\<lambda>d. ''_acme-challenge.'' @ d) domains ! i"
      using i by simp
  qed
qed


theorem expected_records_follow_challenges_witness:
  "map (\<lambda>c. acme_getChallengeKeyAuthorization demo_env (sel_challenge c)) demo_selected =
     [Inr ''ka-d-example.com'', Inr ''ka-d-www.example.com''] \<and>
   snd (getChallenges demo_env demo_domains) = Resolved (Order ''https://ca.test/order/1'', demo_selected) \<and>
   map auth_identifier
     (map (\<lambda>d. demo_authorization \<lparr> id_type = ''dns'', id_value = d \<rparr>) demo_domains) =
     map (\<lambda>d. \<lparr>id_type = ''dns'', id_value = d\<rparr>) demo_domains \<and>
   snd (all_tasks (map (expected_record demo_env) demo_selected)) = Resolved demo_records \<and>
   length demo_records = length demo_domains \<and>
   map rec_key demo_records =
     [''_acme-challenge.example.com'', ''_acme-challenge.www.example.com'']"
  using expected_records_follow_challenges
    [of demo_selected demo_env demo_records demo_domains "Order ''https://ca.test/order/1''"
        "map (\<lambda>d. demo_authorization \<lparr> id_type = ''dns'', id_value = d \<rparr>) demo_domains"]
  by (simp add: workflow_eval demo_selected_def demo_records_def del: await_Resolved)

text \<open>
  C3, as stated, fails: \<^verbatim>\<open>pushRecords\<close> sends \<^verbatim>\<open>records.map((r) => r.value)\<close>, so the call
  carries the expected TXT values only. For the record with key
  \<^verbatim>\<open>_acme-challenge.example.com\<close> and value \<^verbatim>\<open>token\<close> the call is
  \<^verbatim>\<open>registerChallenges\<close> with the list \<^verbatim>\<open>["token"]\<close>; the key is not in it, and a record
  with another key and the same value gives the same call.
\<close>

theorem pushRecords_omits_keys_counterexample:
  "fst (pushRecords demo_env (Some ''worker-1'') [demo_record]) =
     [RegisterChallenges (Some ''worker-1'') [''token'']] \<and>
   rec_key demo_record \<notin> set [''token''] \<and>
   rec_key demo_record \<noteq> rec_key (demo_record\<lparr> rec_key := ''_acme-challenge.example.org'' \<rparr>) \<and>
   pushRecords demo_env (Some ''worker-1'') [demo_record] =
     pushRecords demo_env (Some ''worker-1'')
       [demo_record\<lparr> rec_key := ''_acme-challenge.example.org'' \<rparr>]"
  by (simp add: pushRecords_def demo_record_def demo_env_def)

text \<open>
  C3, amended. \<^verbatim>\<open>pushRecords\<close> makes exactly one \<^verbatim>\<open>registerChallenges\<close> call, carrying the
  worker identity and the expected TXT value of every record, in order, and is rejected
  with the error of the RPC if it fails. In \<^verbatim>\<open>startWorker\<close> a \<^verbatim>\<open>registerChallenges\<close> call
  is the only one of its trace, it carries the values of the records computed for the
  challenges of the fetched domains, and if the RPC fails the whole job is rejected with
  that error and nothing is called after it.
\<close>

theorem pushRecords_sends_values:
  "pushRecords env workerUuid records =
     ([RegisterChallenges workerUuid (map rec_value records)],
      (case rpc_registerChallenges env workerUuid (map rec_value records) of
         Inl e \<Rightarrow> Rejected e
       | Inr ok \<Rightarrow> Resolved ok)) \<and>
   (RegisterChallenges workerUuid' vals \<in> set (fst (startWorker env workerUuid evs)) \<longrightarrow>
      workerUuid' = workerUuid \<and>
      filter is_publish (fst (startWorker env workerUuid evs)) = [RegisterChallenges workerUuid vals] \<and>
      (\<exists>domains order challenges computed.
         rpc_fetchDomains env workerUuid = Inr domains \<and>
         snd (getChallenges env domains) = Resolved (order, challenges) \<and>
         snd (all_tasks (map (expected_record env) challenges)) = Resolved computed \<and>
         vals = map rec_value computed) \<and>
      (\<forall>e. rpc_registerChallenges env workerUuid vals = Inl e \<longrightarrow>
         snd (startWorker env workerUuid evs) = Rejected e \<and>
         last (fst (startWorker env workerUuid evs)) = RegisterChallenges workerUuid vals))"
proof (intro conjI impI)
  show "pushRecords env workerUuid records =
     ([RegisterChallenges workerUuid (map rec_value records)],
      (case rpc_registerChallenges env workerUuid (map rec_value records) of
         Inl e \<Rightarrow> Rejected e
       | Inr ok \<Rightarrow> Resolved ok))"
    by (simp add: pushRecords_def call_def)
next
  assume a: "RegisterChallenges workerUuid' vals \<in> set (fst (startWorker env workerUuid evs))"
  then obtain p where p: "snd (prepare env workerUuid) = Resolved p"
    and u: "workerUuid' = workerUuid" and vals: "vals = map rec_value (snd (snd (snd p)))"
    by (rule startWorker_published)
  obtain domains order challenges computed where pp: "p = (domains, order, challenges, computed)"
    by (cases p)
  show "workerUuid' = workerUuid" by fact
  show "filter is_publish (fst (startWorker env workerUuid evs)) = [RegisterChallenges workerUuid vals]"
    using startWorker_publish_once [OF p] vals by simp
  show "\<exists>domains order challenges computed.
         rpc_fetchDomains env workerUuid = Inr domains \<and>
         snd (getChallenges env domains) = Resolved (order, challenges) \<and>
         snd (all_tasks (map (expected_record env) challenges)) = Resolved computed \<and>
         vals = map rec_value computed"
    using prepare_Resolved [of env workerUuid domains order challenges computed] p pp vals
    by auto
  show "\<forall>e. rpc_registerChallenges env workerUuid vals = Inl e \<longrightarrow>
         snd (startWorker env workerUuid evs) = Rejected e \<and>
         last (fst (startWorker env workerUuid evs)) = RegisterChallenges workerUuid vals"
    using startWorker_publish_failed [OF p] vals by simp
qed

theorem pushRecords_sends_values_witness:
  "RegisterChallenges (Some ''worker-1'') [''ka-d-example.com'', ''ka-d-www.example.com'']
     \<in> set (fst (startWorker demo_env_publish_fails (Some ''worker-1'') [(5000, None)])) \<and>
   rpc_registerChallenges demo_env_publish_fails (Some ''worker-1'')
     [''ka-d-example.com'', ''ka-d-www.example.com''] = Inl (RpcError ''UNAVAILABLE'') \<and>
   snd (startWorker demo_env_publish_fails (Some ''worker-1'') [(5000, None)]) =
     Rejected (RpcError ''UNAVAILABLE'') \<and>
   last (fst (startWorker demo_env_publish_fails (Some ''worker-1'') [(5000, None)])) =
     RegisterChallenges (Some ''worker-1'') [''ka-d-example.com'', ''ka-d-www.example.com'']"
  using pushRecords_sends_values
    [of demo_env_publish_fails "Some ''worker-1''" demo_records "Some ''worker-1''"
        "[''ka-d-example.com'', ''ka-d-www.example.com'']" "[(5000, None)]"]
  by (simp add: workflow_eval demo_env_publish_fails_def del: await_Resolved)

text \<open>
  C7. \<^verbatim>\<open>issue\<close> first creates the CSR with the first entry of the domain set as common name
  and the remaining entries, in order, as alternative names. When the CSR is created, the
  order finalized and the certificate obtained, it makes exactly these calls and then
  reports, in one \<^verbatim>\<open>verifiedCallback\<close> call, the worker identity with the CSR, the
  private key and the certificate, each base64-encoded. In \<^verbatim>\<open>startWorker\<close> the domain set
  is the fetched one: every CSR request of its trace has the first fetched domain as
  common name and the rest as alternative names, and every report carries the base64
  encodings of the key and CSR created for them and of a certificate the ACME client
  returned.
\<close>

theorem issue_builds_csr_and_reports_base64:
  "hd (fst (issue env workerUuid (commonName # altNames) order)) = CreateCsr (Some commonName) altNames \<and>
   (acme_createCsr env (Some commonName) altNames = Inr (key, csr) \<and>
    acme_finalizeOrder env order csr = Inr () \<and>
    acme_getCertificate env order = Inr cert \<longrightarrow>
      issue env workerUuid (commonName # altNames) order =
        ([CreateCsr (Some commonName) altNames, FinalizeOrder order csr, GetCertificate order,
          VerifiedCallback \<lparr> cb_uuid = workerUuid, cb_csr = base64 csr, cb_privKey = base64 key,
                             cb_certificate = base64 (Buffer_from cert) \<rparr>],
         (case rpc_verifiedCallback env
                 \<lparr> cb_uuid = workerUuid, cb_csr = base64 csr, cb_privKey = base64 key,
                   cb_certificate = base64 (Buffer_from cert) \<rparr> of
            Inl e \<Rightarrow> Rejected e
          | Inr ok \<Rightarrow> Resolved ok))) \<and>
   (CreateCsr cn alts \<in> set (fst (startWorker env workerUuid evs)) \<longrightarrow>
      (\<exists>domains. rpc_fetchDomains env workerUuid = Inr domains \<and>
         cn = (case domains of [] \<Rightarrow> None | d # ds \<Rightarrow> Some d) \<and> alts = drop 1 domains)) \<and>
   (VerifiedCallback request \<in> set (fst (startWorker env workerUuid evs)) \<longrightarrow>
      (\<exists>domains certOrder key' csr' cert'.
         rpc_fetchDomains env workerUuid = Inr domains \<and>
         acme_createCsr env (case domains of [] \<Rightarrow> None | d # ds \<Rightarrow> Some d) (drop 1 domains) =
           Inr (key', csr') \<and>
         acme_getCertificate env certOrder = Inr cert' \<and>
         request = \<lparr> cb_uuid = workerUuid, cb_csr = base64 csr', cb_privKey = base64 key',
                      cb_certificate = base64 (Buffer_from cert') \<rparr>))"
proof (intro conjI impI)
  show "hd (fst (issue env workerUuid (commonName # altNames) order)) =
          CreateCsr (Some commonName) altNames"
    using issue_first [of env workerUuid "commonName # altNames" order] by auto
next
  assume "acme_createCsr env (Some commonName) altNames = Inr (key, csr) \<and>
    acme_finalizeOrder env order csr = Inr () \<and>
    acme_getCertificate env order = Inr cert"
  then show "issue env workerUuid (commonName # altNames) order =
        ([CreateCsr (Some commonName) altNames, FinalizeOrder order csr, GetCertificate order,
          VerifiedCallback \<lparr> cb_uuid = workerUuid, cb_csr = base64 csr, cb_privKey = base64 key,
                             cb_certificate = base64 (Buffer_from cert) \<rparr>],
         (case rpc_verifiedCallback env
                 \<lparr> cb_uuid = workerUuid, cb_csr = base64 csr, cb_privKey = base64 key,
                   cb_certificate = base64 (Buffer_from cert) \<rparr> of
            Inl e \<Rightarrow> Rejected e
          | Inr ok \<Rightarrow> Resolved ok))"
    by (simp add: issue_def Let_def call_def)
next
  assume a: "CreateCsr cn alts \<in> set (fst (startWorker env workerUuid evs))"
  have "is_issue (CreateCsr cn alts)" by simp
  with a obtain domains order' where "rpc_fetchDomains env workerUuid = Inr domains"
    "CreateCsr cn alts \<in> set (fst (issue env workerUuid domains order'))"
    by (rule startWorker_issue)
  then show "\<exists>domains. rpc_fetchDomains env workerUuid = Inr domains \<and>
         cn = (case domains of [] \<Rightarrow> None | d # ds \<Rightarrow> Some d) \<and> alts = drop 1 domains"
    using issue_csr by blast
next
  assume a: "VerifiedCallback request \<in> set (fst (startWorker env workerUuid evs))"
  have "is_issue (VerifiedCallback request)" by simp
  with a obtain domains order' where "rpc_fetchDomains env workerUuid = Inr domains"
    "VerifiedCallback request \<in> set (fst (issue env workerUuid domains order'))"
    by (rule startWorker_issue)
  then show "\<exists>domains certOrder key' csr' cert'.
         rpc_fetchDomains env workerUuid = Inr domains \<and>
         acme_createCsr env (case domains of [] \<Rightarrow> None | d # ds \<Rightarrow> Some d) (drop 1 domains) =
           Inr (key', csr') \<and>
         acme_getCertificate env certOrder = Inr cert' \<and>
         request = \<lparr> cb_uuid = workerUuid, cb_csr = base64 csr', cb_privKey = base64 key',
                      cb_certificate = base64 (Buffer_from cert') \<rparr>"
    using issue_callback [of request env workerUuid domains order'] by blast
qed

theorem issue_builds_csr_and_reports_base64_witness:
  "acme_createCsr demo_env (Some ''example.com'') [''www.example.com''] =
     Inr ([0x4B, 0x65, 0x79, 0x21], [0x43, 0x53, 0x52]) \<and>
   acme_finalizeOrder demo_env (Order ''https://ca.test/order/1'') [0x43, 0x53, 0x52] = Inr () \<and>
   acme_getCertificate demo_env (Order ''https://ca.test/order/1'') = Inr ''CERTIFICATE'' \<and>
   issue demo_env (Some ''worker-1'') [''example.com'', ''www.example.com'']
       (Order ''https://ca.test/order/1'') =
     ([CreateCsr (Some ''example.com'') [''www.example.com''],
       FinalizeOrder (Order ''https://ca.test/order/1'') [0x43, 0x53, 0x52],
       GetCertificate (Order ''https://ca.test/order/1''),
       VerifiedCallback \<lparr> cb_uuid = Some ''worker-1'', cb_csr = ''Q1NS'',
                          cb_privKey = ''S2V5IQ=='', cb_certificate = ''Q0VSVElGSUNBVEU='' \<rparr>],
      Resolved ()) \<and>
   CreateCsr (Some ''example.com'') [''www.example.com'']
     \<in> set (fst (startWorker demo_env (Some ''worker-1'') demo_events)) \<and>
   VerifiedCallback \<lparr> cb_uuid = Some ''worker-1'', cb_csr = ''Q1NS'',
                      cb_privKey = ''S2V5IQ=='', cb_certificate = ''Q0VSVElGSUNBVEU='' \<rparr>
     \<in> set (fst (startWorker demo_env (Some ''worker-1'') demo_events))"
  using issue_builds_csr_and_reports_base64
    [of demo_env "Some ''worker-1''" "''example.com''" "[''www.example.com'']"
        "Order ''https://ca.test/order/1''" "[0x4B, 0x65, 0x79, 0x21]" "[0x43, 0x53, 0x52]"
        "''CERTIFICATE''" "Some ''example.com''" "[''www.example.com'']" demo_events
        "\<lparr> cb_uuid = Some ''worker-1'', cb_csr = ''Q1NS'',
           cb_privKey = ''S2V5IQ=='', cb_certificate = ''Q0VSVElGSUNBVEU='' \<rparr>"]
  by (simp add: loop_eval del: await_Resolved)

text \<open>
  C10. An empty domain set is not rejected by the workflow. When the steps before succeed,
  the ACME client accepts an order without identifiers and returns no authorization for
  it, and the publication RPC succeeds: \<^verbatim>\<open>getChallenges\<close> returns the empty challenge list,
  no key authorization is requested, \<^verbatim>\<open>registerChallenges\<close> is called with the empty
  list, the barrier over zero records is fulfilled at once with an empty log (no DNS
  query), no challenge is finalized, and \<^verbatim>\<open>startWorker\<close> goes on to \<^verbatim>\<open>issue\<close>, whose CSR
  request has no common name and no alternative names; the outcome of \<^verbatim>\<open>startWorker\<close> is
  the outcome of \<^verbatim>\<open>issue\<close>.
\<close>

theorem empty_domain_set_is_not_rejected:
  assumes "acme_createPrivateKey env = Inr k"
    and "rpc_registerClient env workerUuid = Inr email"
    and "acme_createAccount env [''mailto:'' @ email] = Inr ()"
    and "rpc_fetchDomains env workerUuid = Inr []"
    and "acme_createOrder env [] = Inr order"
    and "acme_getAuthorizations env order = Inr []"
    and "rpc_registerChallenges env workerUuid [] = Inr ()"
  shows "getChallenges env [] = ([CreateOrder [], GetAuthorizations order], Resolved (order, [])) \<and>
         all_tasks (map (expected_record env) []) = ([], Resolved []) \<and>
         awaitAllVerified [] evs = ([], Resolved []) \<and>
         all_tasks (map (finalize env) []) = ([], Resolved []) \<and>
         startWorker env workerUuid evs =
           ([CreatePrivateKey, RegisterClient workerUuid, CreateAccount [''mailto:'' @ email],
             FetchDomains workerUuid, CreateOrder [], GetAuthorizations order,
             RegisterChallenges workerUuid []] @ fst (issue env workerUuid [] order),
            snd (issue env workerUuid [] order)) \<and>
         (\<forall>a \<in> set (fst (startWorker env workerUuid evs)). \<not> is_watch a \<and> \<not> is_finalize a) \<and>
         hd (fst (issue env workerUuid [] order)) = CreateCsr None []"
proof -
  have g: "getChallenges env [] = ([CreateOrder [], GetAuthorizations order], Resolved (order, []))"
    using assms(5,6) by (rule getChallenges_empty)
  have r: "all_tasks (map (expected_record env) []) = ([], Resolved [])"
    and f: "all_tasks (map (finalize env) []) = ([], Resolved [])"
    by (simp_all add: all_tasks_def)
  have w: "awaitAllVerified [] evs = ([], Resolved [])" by (rule awaitAllVerified_Nil)
  have s: "startWorker env workerUuid evs =
           ([CreatePrivateKey, RegisterClient workerUuid, CreateAccount [''mailto:'' @ email],
             FetchDomains workerUuid, CreateOrder [], GetAuthorizations order,
             RegisterChallenges workerUuid []] @ fst (issue env workerUuid [] order),
            snd (issue env workerUuid [] order))"
    unfolding startWorker_def
    using assms g r f w
    by (simp add: initialize_def createAccount_def fetchDomains_def pushRecords_def)
  have t: "\<forall>a \<in> set (fst (startWorker env workerUuid evs)). \<not> is_watch a \<and> \<not> is_finalize a"
    unfolding s using issue_trace [of _ env workerUuid "[]" order] by auto
  have i: "hd (fst (issue env workerUuid [] order)) = CreateCsr None []"
    using issue_first [of env workerUuid "[]" order] by auto
  show ?thesis using g r w f s t i by blast
qed

theorem empty_domain_set_is_not_rejected_witness:
  "acme_createPrivateKey demo_env_empty = Inr [1, 2, 3] \<and>
   rpc_registerClient demo_env_empty (Some ''worker-1'') = Inr ''ops@example.com'' \<and>
   acme_createAccount demo_env_empty [''mailto:'' @ ''ops@example.com''] = Inr () \<and>
   rpc_fetchDomains demo_env_empty (Some ''worker-1'') = Inr [] \<and>
   acme_createOrder demo_env_empty [] = Inr (Order ''https://ca.test/order/1'') \<and>
   acme_getAuthorizations demo_env_empty (Order ''https://ca.test/order/1'') = Inr [] \<and>
   rpc_registerChallenges demo_env_empty (Some ''worker-1'') [] = Inr () \<and>
   startWorker demo_env_empty (Some ''worker-1'') [(5000, None), (10000, None)] =
     ([CreatePrivateKey, RegisterClient (Some ''worker-1''),
       CreateAccount [''mailto:ops@example.com''], FetchDomains (Some ''worker-1''),
       CreateOrder [], GetAuthorizations (Order ''https://ca.test/order/1''),
       RegisterChallenges (Some ''worker-1'') [], CreateCsr None [],
       FinalizeOrder (Order ''https://ca.test/order/1'') [0x43, 0x53, 0x52],
       GetCertificate (Order ''https://ca.test/order/1''),
       VerifiedCallback \<lparr> cb_uuid = Some ''worker-1'', cb_csr = ''Q1NS'',
                          cb_privKey = ''S2V5IQ=='', cb_certificate = ''Q0VSVElGSUNBVEU='' \<rparr>],
      Resolved ())"
  using empty_domain_set_is_not_rejected
    [of demo_env_empty "[1, 2, 3]" "Some ''worker-1''" "''ops@example.com''"
        "Order ''https://ca.test/order/1''" "[(5000, None), (10000, None)]"]
  by (simp add: workflow_eval demo_env_empty_def del: await_Resolved)

text \<open>
  C2. The barrier over the watchers of N records is fulfilled only when every one of the N
  watchers has signalled: each watcher, run on its own over the events delivered to it, is
  fulfilled, and its call of \<^verbatim>\<open>resolve()\<close> is in the log. If one watcher is not fulfilled
  even after all the events, the barrier is still pending. And in every trace of
  \<^verbatim>\<open>startWorker\<close> that contains a call of \<^verbatim>\<open>finalize\<close>, the part of the trace before the
  first such call holds the signal of the watcher of every published record.
\<close>

theorem finalize_only_after_all_watchers:
  "(snd (awaitAllVerified records evs) = Resolved us \<longrightarrow>
      length us = length records \<and>
      (\<forall>i < length records. \<exists>n \<le> length evs.
         promise (run (map (event_for i) (take n evs)) (waitUntilVerify (records ! i))) = Resolved ()) \<and>
      (\<forall>i < length records. \<exists>t. Watch i t Signal \<in> set (fst (awaitAllVerified records evs)))) \<and>
   ((\<exists>i < length records.
       promise (run (map (event_for i) evs) (waitUntilVerify (records ! i))) \<noteq> Resolved ()) \<longrightarrow>
      snd (awaitAllVerified records evs) = Pending) \<and>
   (a \<in> set (fst (startWorker env workerUuid evs)) \<and> is_finalize a \<longrightarrow>
      (\<exists>vals. RegisterChallenges workerUuid vals \<in> set (fst (startWorker env workerUuid evs)) \<and>
         (\<forall>i < length vals. \<exists>t. Watch i t Signal \<in>
            set (takeWhile (\<lambda>b. \<not> is_finalize b) (fst (startWorker env workerUuid evs))))))"
proof (intro conjI impI)
  assume r: "snd (awaitAllVerified records evs) = Resolved us"
  show "length us = length records"
    and "\<forall>i < length records. \<exists>n \<le> length evs.
         promise (run (map (event_for i) (take n evs)) (waitUntilVerify (records ! i))) = Resolved ()"
    and "\<forall>i < length records. \<exists>t. Watch i t Signal \<in> set (fst (awaitAllVerified records evs))"
    using awaitAllVerified_Resolved [OF r] by blast+
next
  assume "\<exists>i < length records.
       promise (run (map (event_for i) evs) (waitUntilVerify (records ! i))) \<noteq> Resolved ()"
  then show "snd (awaitAllVerified records evs) = Pending"
    using awaitAllVerified_Pending by blast
next
  assume "a \<in> set (fst (startWorker env workerUuid evs)) \<and> is_finalize a"
  then obtain rs us' tr where r: "snd (awaitAllVerified rs evs) = Resolved us'"
    and tr: "fst (startWorker env workerUuid evs) =
       fst (prepare env workerUuid) @ RegisterChallenges workerUuid (map rec_value rs) #
       fst (awaitAllVerified rs evs) @ tr"
    using startWorker_finalize [of a env workerUuid evs] by blast
  let ?pre = "fst (prepare env workerUuid) @ RegisterChallenges workerUuid (map rec_value rs) #
       fst (awaitAllVerified rs evs)"
  have quiet: "\<forall>b \<in> set ?pre. \<not> is_finalize b"
    using prepare_trace [of _ env workerUuid] awaitAllVerified_trace [of _ rs evs]
      is_kinds_disjoint(1)
    by auto
  have tw: "takeWhile (\<lambda>b. \<not> is_finalize b) (fst (startWorker env workerUuid evs)) =
      ?pre @ takeWhile (\<lambda>b. \<not> is_finalize b) tr"
    using takeWhile_append2 [of ?pre "\<lambda>b. \<not> is_finalize b" tr] quiet unfolding tr by simp
  have "\<exists>t. Watch i t Signal \<in>
      set (takeWhile (\<lambda>b. \<not> is_finalize b) (fst (startWorker env workerUuid evs)))"
    if "i < length (map rec_value rs)" for i
  proof -
    from that have "i < length rs" by simp
    then obtain t where "Watch i t Signal \<in> set (fst (awaitAllVerified rs evs))"
      using awaitAllVerified_Resolved(3) [OF r] by blast
    then show ?thesis unfolding tw by auto
  qed
  moreover have "RegisterChallenges workerUuid (map rec_value rs)
      \<in> set (fst (startWorker env workerUuid evs))"
    unfolding tr by simp
  ultimately show "\<exists>vals. RegisterChallenges workerUuid vals \<in> set (fst (startWorker env workerUuid evs)) \<and>
         (\<forall>i < length vals. \<exists>t. Watch i t Signal \<in>
            set (takeWhile (\<lambda>b. \<not> is_finalize b) (fst (startWorker env workerUuid evs))))"
    by blast
qed

theorem finalize_only_after_all_watchers_witness:
  "snd (awaitAllVerified demo_records demo_events) = Resolved [(), ()] \<and>
   promise (run (map (event_for 1) (take 4 demo_events)) (waitUntilVerify (demo_records ! 1)))
     \<noteq> Resolved () \<and>
   snd (awaitAllVerified demo_records (take 4 demo_events)) = Pending \<and>
   filter is_finalize (fst (startWorker demo_env (Some ''worker-1'') (take 4 demo_events))) = [] \<and>
   CompleteChallenge (demo_challenges ''example.com'' ! 1)
     \<in> set (fst (startWorker demo_env (Some ''worker-1'') demo_events)) \<and>
   is_finalize (CompleteChallenge (demo_challenges ''example.com'' ! 1)) \<and>
   takeWhile (\<lambda>b. \<not> is_finalize b) (fst (startWorker demo_env (Some ''worker-1'') demo_events)) =
     [CreatePrivateKey, RegisterClient (Some ''worker-1''),
      CreateAccount [''mailto:ops@example.com''], FetchDomains (Some ''worker-1''),
      CreateOrder [\<lparr> id_type = ''dns'', id_value = ''example.com'' \<rparr>,
                   \<lparr> id_type = ''dns'', id_value = ''www.example.com'' \<rparr>],
      GetAuthorizations (Order ''https://ca.test/order/1''),
      GetChallengeKeyAuthorization (demo_challenges ''example.com'' ! 1),
      GetChallengeKeyAuthorization (demo_challenges ''www.example.com'' ! 1),
      RegisterChallenges (Some ''worker-1'') [''ka-d-example.com'', ''ka-d-www.example.com''],
      Watch 0 5000 (Query (ResolveCname ''_acme-challenge.example.com'')),
      Watch 0 5040 (Query (ResolveTxt ''v.example.net'')),
      Watch 0 20090 Signal,
      Watch 1 5000 (Query (ResolveCname ''_acme-challenge.www.example.com'')),
      Watch 1 5050 (Query (ResolveTxt ''w.example.net'')),
      Watch 1 10000 (Query (ResolveCname ''_acme-challenge.www.example.com'')),
      Watch 1 15000 (Query (ResolveCname ''_acme-challenge.www.example.com'')),
      Watch 1 20000 (Query (ResolveCname ''_acme-challenge.www.example.com'')),
      Watch 1 25000 (Query (ResolveCname ''_acme-challenge.www.example.com'')),
      Watch 1 40000 Signal]"
proof -
  have facts: "snd (awaitAllVerified demo_records demo_events) = Resolved [(), ()] \<and>
       promise (run (map (event_for 1) (take 4 demo_events)) (waitUntilVerify (demo_records ! 1)))
         \<noteq> Resolved () \<and>
       snd (awaitAllVerified demo_records (take 4 demo_events)) = Pending \<and>
       filter is_finalize (fst (startWorker demo_env (Some ''worker-1'') (take 4 demo_events))) = [] \<and>
       CompleteChallenge (demo_challenges ''example.com'' ! 1)
         \<in> set (fst (startWorker demo_env (Some ''worker-1'') demo_events)) \<and>
       is_finalize (CompleteChallenge (demo_challenges ''example.com'' ! 1)) \<and>
       takeWhile (\<lambda>b. \<not> is_finalize b) (fst (startWorker demo_env (Some ''worker-1'') demo_events)) =
         [CreatePrivateKey, RegisterClient (Some ''worker-1''),
          CreateAccount [''mailto:ops@example.com''], FetchDomains (Some ''worker-1''),
          CreateOrder [\<lparr> id_type = ''dns'', id_value = ''example.com'' \<rparr>,
                       \<lparr> id_type = ''dns'', id_value = ''www.example.com'' \<rparr>],
          GetAuthorizations (Order ''https://ca.test/order/1''),
          GetChallengeKeyAuthorization (demo_challenges ''example.com'' ! 1),
          GetChallengeKeyAuthorization (demo_challenges ''www.example.com'' ! 1),
          RegisterChallenges (Some ''worker-1'') [''ka-d-example.com'', ''ka-d-www.example.com''],
          Watch 0 5000 (Query (ResolveCname ''_acme-challenge.example.com'')),
          Watch 0 5040 (Query (ResolveTxt ''v.example.net'')),
          Watch 0 20090 Signal,
          Watch 1 5000 (Query (ResolveCname ''_acme-challenge.www.example.com'')),
          Watch 1 5050 (Query (ResolveTxt ''w.example.net'')),
          Watch 1 10000 (Query (ResolveCname ''_acme-challenge.www.example.com'')),
          Watch 1 15000 (Query (ResolveCname ''_acme-challenge.www.example.com'')),
          Watch 1 20000 (Query (ResolveCname ''_acme-challenge.www.example.com'')),
          Watch 1 25000 (Query (ResolveCname ''_acme-challenge.www.example.com'')),
          Watch 1 40000 Signal]"
    by (simp add: loop_eval demo_records_def del: await_Resolved)
  show ?thesis
    using finalize_only_after_all_watchers
      [of demo_records demo_events "[(), ()]" "CompleteChallenge (demo_challenges ''example.com'' ! 1)"
          demo_env "Some ''worker-1''"]
      finalize_only_after_all_watchers
      [of demo_records "take 4 demo_events" "[]" "CreatePrivateKey" demo_env "Some ''worker-1''"]
    by - (rule facts)
qed

end
